theory Spec2Isabelle
  imports Main
begin

section \<open>Values, outcomes and the underlying driver\<close>

text \<open>
  JavaScript values that travel through the library.  \<open>Undefined\<close> is what a
  \<open>Promise<void>\<close> resolves with, \<open>Error msg\<close> is \<open>new Error(msg)\<close>, \<open>RawHandle\<close>
  is the driver object \<open>this._db\<close>, \<open>Db\<close> is the \<open>IDatabase\<close> instance that
  \<open>createDb\<close> resolves with, and \<open>V x\<close> is any other value (rows, results, values
  thrown by user code).
\<close>

datatype 'v jsval = Undefined | Error string | RawHandle | Db | V 'v

text \<open>How a promise settles: fulfilled with a value or rejected with a thrown value.\<close>

datatype 'v outcome = Resolved "'v jsval" | Rejected "'v jsval"

text \<open>
  The driver object \<open>_db\<close> (better-sqlite3, node:sqlite, bun:sqlite) is an external
  collaborator.  It enters as a parameter: \<open>db_exec sql d\<close> is \<open>_db.exec(sql)\<close> on
  driver state \<open>d\<close>; it returns \<open>Some err\<close> when the call throws \<open>err\<close>, \<open>None\<close> when it
  returns, together with the driver state afterwards.  \<open>db_close\<close> is \<open>_db.close()\<close>.
  \<open>db_backup\<close> and \<open>db_serialize\<close> are what the driver's own backup and serialize
  facilities come to (\<open>db.backup(...)\<close>, \<open>backup(db, ...)\<close> of node:sqlite,
  \<open>db.serialize(...)\<close>, with the file written or read along the way): how the call
  settles and the driver state afterwards.
\<close>

record ('d, 'v) driver =
  db_exec :: "string \<Rightarrow> 'd \<Rightarrow> 'v jsval option \<times> 'd"
  db_close :: "'d \<Rightarrow> 'v jsval option \<times> 'd"
  db_backup :: "'d \<Rightarrow> 'v outcome \<times> 'd"
  db_serialize :: "'d \<Rightarrow> 'v outcome \<times> 'd"

section \<open>\<open>BaseDatabase\<close> (src/abstract/base-database.ts)\<close>

text \<open>
  Who issued a statement: the body of \<open>transaction\<close> itself (\<open>Manager\<close>) or a caller
  of the public \<open>exec\<close> method (\<open>Caller\<close>).  The tag is history only.
\<close>

datatype origin = Manager | Caller

text \<open>
  One entry of the history of \<open>_db.exec\<close> calls: who issued it, the SQL text, whether
  the driver accepted it, and the value of \<open>#transactionDepth\<close> at the call.
\<close>

type_synonym issue = "origin \<times> string \<times> bool \<times> int"

definition issue_origin :: "issue \<Rightarrow> origin" where
  "issue_origin i = fst i"

definition issue_sql :: "issue \<Rightarrow> string" where
  "issue_sql i = fst (snd i)"

definition issue_ok :: "issue \<Rightarrow> bool" where
  "issue_ok i = fst (snd (snd i))"

definition issue_depth :: "issue \<Rightarrow> int" where
  "issue_depth i = snd (snd (snd i))"

text \<open>
  The fields of a \<open>BaseDatabase\<close> instance: \<open>_db\<close>, \<open>#transactionDepth\<close> (a JavaScript
  number, hence an integer that could in principle go below zero) and \<open>#isClosed\<close>;
  \<open>issued\<close> is the history of \<open>_db.exec\<close> calls, kept for stating properties.
\<close>

record ('d, 'v) base_database =
  raw_db :: 'd
  transactionDepth :: int
  isClosed :: bool
  issued :: "issue list"

definition new_base_database :: "'d \<Rightarrow> ('d, 'v) base_database" where
  "new_base_database d = \<lparr>raw_db = d, transactionDepth = 0, isClosed = False, issued = []\<rparr>"

text \<open>\<open>exec(sql)\<close>: call \<open>_db.exec(sql)\<close>; resolve, or reject with what it threw.\<close>

definition exec_from ::
  "origin \<Rightarrow> ('d, 'v) driver \<Rightarrow> string \<Rightarrow> ('d, 'v) base_database
    \<Rightarrow> 'v outcome \<times> ('d, 'v) base_database" where
  "exec_from who drv sql this =
     (case db_exec drv sql (raw_db this) of
        (None, d) \<Rightarrow>
          (Resolved Undefined,
           this\<lparr>raw_db := d,
                issued := issued this @ [(who, sql, True, transactionDepth this)]\<rparr>)
      | (Some err, d) \<Rightarrow>
          (Rejected err,
           this\<lparr>raw_db := d,
                issued := issued this @ [(who, sql, False, transactionDepth this)]\<rparr>))"

definition exec ::
  "('d, 'v) driver \<Rightarrow> string \<Rightarrow> ('d, 'v) base_database
    \<Rightarrow> 'v outcome \<times> ('d, 'v) base_database" where
  "exec = exec_from Caller"

text \<open>\<open>backup\<close> and \<open>serialize\<close> of the base class reject without touching the driver.\<close>

definition backup :: "('d, 'v) base_database \<Rightarrow> 'v outcome \<times> ('d, 'v) base_database" where
  "backup this = (Rejected (Error ''Database backup is not supported by this driver.''), this)"

definition serialize :: "('d, 'v) base_database \<Rightarrow> 'v outcome \<times> ('d, 'v) base_database" where
  "serialize this =
     (Rejected (Error ''Database serialization is not supported by this driver.''), this)"

text \<open>
  The three classes whose instances \<open>createDb\<close> resolves with (\<open>NodeSqliteDatabase\<close>,
  \<open>BetterSqlite3Database\<close>, \<open>BunSqliteDatabase\<close>) all override \<open>backup\<close> and
  \<open>serialize\<close>.  Each override takes the driver object with \<open>await this.raw()\<close> and
  settles as the driver's facility does; being subclasses, they cannot read the private
  fields \<open>#isClosed\<close> and \<open>#transactionDepth\<close>.
\<close>

definition backup_override ::
  "('d, 'v) driver \<Rightarrow> ('d, 'v) base_database \<Rightarrow> 'v outcome \<times> ('d, 'v) base_database" where
  "backup_override drv this =
     (case db_backup drv (raw_db this) of (r, d) \<Rightarrow> (r, this\<lparr>raw_db := d\<rparr>))"

definition serialize_override ::
  "('d, 'v) driver \<Rightarrow> ('d, 'v) base_database \<Rightarrow> 'v outcome \<times> ('d, 'v) base_database" where
  "serialize_override drv this =
     (case db_serialize drv (raw_db this) of (r, d) \<Rightarrow> (r, this\<lparr>raw_db := d\<rparr>))"

text \<open>
  \<open>close()\<close>: resolve at once when \<open>#isClosed\<close>; otherwise call \<open>_db.close()\<close>, set
  the flag and resolve, or reject with what the driver threw (flag unchanged).
\<close>

definition close ::
  "('d, 'v) driver \<Rightarrow> ('d, 'v) base_database \<Rightarrow> 'v outcome \<times> ('d, 'v) base_database" where
  "close drv this =
     (if isClosed this then (Resolved Undefined, this)
      else (case db_close drv (raw_db this) of
              (None, d) \<Rightarrow> (Resolved Undefined, this\<lparr>raw_db := d, isClosed := True\<rparr>)
            | (Some err, d) \<Rightarrow> (Rejected err, this\<lparr>raw_db := d\<rparr>)))"

definition begin_tx ::
  "('d, 'v) driver \<Rightarrow> ('d, 'v) base_database \<Rightarrow> 'v outcome \<times> ('d, 'v) base_database" where
  "begin_tx drv this = exec drv ''BEGIN'' this"

definition commit ::
  "('d, 'v) driver \<Rightarrow> ('d, 'v) base_database \<Rightarrow> 'v outcome \<times> ('d, 'v) base_database" where
  "commit drv this = exec drv ''COMMIT'' this"

definition rollback ::
  "('d, 'v) driver \<Rightarrow> ('d, 'v) base_database \<Rightarrow> 'v outcome \<times> ('d, 'v) base_database" where
  "rollback drv this = exec drv ''ROLLBACK'' this"

text \<open>\<open>raw()\<close> is \<open>Promise.resolve(this._db)\<close>.\<close>

definition raw :: "('d, 'v) base_database \<Rightarrow> 'v outcome \<times> ('d, 'v) base_database" where
  "raw this = (Resolved RawHandle, this)"

subsection \<open>Decimal rendering of the depth in the savepoint name\<close>

definition digit_char :: "nat \<Rightarrow> char" where
  "digit_char n = ''0123456789'' ! n"

function digits_of :: "nat \<Rightarrow> string" where
  "digits_of n = (if n < 10 then [digit_char n] else digits_of (n div 10) @ [digit_char (n mod 10)])"
  by pat_completeness auto
termination
  by (relation "measure id") auto

text \<open>The text a template literal gives for an integer-valued number.\<close>

definition toString :: "int \<Rightarrow> string" where
  "toString i = (if i < 0 then CHR ''-'' # digits_of (nat (- i)) else digits_of (nat i))"

subsection \<open>\<open>transaction(fn)\<close>\<close>

text \<open>
  The four callables that \<open>transaction(fn)\<close> returns differ in the \<open>mode\<close> text only:
  the plain call uses the empty string.
\<close>

datatype mode = Plain | DEFERRED | IMMEDIATE | EXCLUSIVE

fun mode_text :: "mode \<Rightarrow> string" where
  "mode_text Plain = ''''"
| "mode_text DEFERRED = ''DEFERRED''"
| "mode_text IMMEDIATE = ''IMMEDIATE''"
| "mode_text EXCLUSIVE = ''EXCLUSIVE''"

text \<open>
  The \<open>catch (err)\<close> block of a transaction attempt.  A rollback statement that is
  itself rejected leaves the block by that rejection: the depth is not reset and
  \<open>err\<close> is lost.
\<close>

definition catch_block ::
  "('d, 'v) driver \<Rightarrow> int \<Rightarrow> string \<Rightarrow> 'v jsval \<Rightarrow> ('d, 'v) base_database
    \<Rightarrow> 'v outcome \<times> ('d, 'v) base_database" where
  "catch_block drv depth savepointName err this =
     (case (if transactionDepth this > 0 then
              (if depth = 0 then exec_from Manager drv ''ROLLBACK'' this
               else exec_from Manager drv (''ROLLBACK TO SAVEPOINT '' @ savepointName) this)
            else (Resolved Undefined, this)) of
        (Rejected err2, this') \<Rightarrow> (Rejected err2, this')
      | (Resolved _, this') \<Rightarrow> (Rejected err, this'\<lparr>transactionDepth := depth\<rparr>))"

text \<open>
  One transaction attempt.  \<open>fn\<close> is the behaviour of the body \<open>fn(this, ...args)\<close>
  awaited to its end: from the instance it is handed to its outcome and the instance
  afterwards.
\<close>

definition transaction ::
  "('d, 'v) driver \<Rightarrow> (('d, 'v) base_database \<Rightarrow> 'v outcome \<times> ('d, 'v) base_database)
    \<Rightarrow> mode \<Rightarrow> ('d, 'v) base_database \<Rightarrow> 'v outcome \<times> ('d, 'v) base_database" where
  "transaction drv fn mode this =
     (let depth = transactionDepth this;
          savepointName = ''isomorphic_sqlite_'' @ toString depth
      in case (if depth = 0 then exec_from Manager drv (''BEGIN '' @ mode_text mode) this
               else exec_from Manager drv (''SAVEPOINT '' @ savepointName) this) of
           (Rejected err, this1) \<Rightarrow> catch_block drv depth savepointName err this1
         | (Resolved _, this1) \<Rightarrow>
            (case fn (this1\<lparr>transactionDepth := transactionDepth this1 + 1\<rparr>) of
               (Rejected err, this2) \<Rightarrow> catch_block drv depth savepointName err this2
             | (Resolved result, this2) \<Rightarrow>
                (let this3 = this2\<lparr>transactionDepth := transactionDepth this2 - 1\<rparr>
                 in case (if depth = 0 then exec_from Manager drv ''COMMIT'' this3
                          else exec_from Manager drv (''RELEASE SAVEPOINT '' @ savepointName) this3) of
                      (Rejected err, this4) \<Rightarrow> catch_block drv depth savepointName err this4
                    | (Resolved _, this4) \<Rightarrow> (Resolved result, this4))))"

text \<open>
  The SQL texts of an attempt that captured \<open>depth\<close>, as the source writes them:
  \<open>`isomorphic_sqlite_${depth}`\<close>, \<open>`BEGIN ${mode}`\<close> or \<open>`SAVEPOINT ${savepointName}`\<close>,
  \<open>'COMMIT'\<close> or \<open>`RELEASE SAVEPOINT ${savepointName}`\<close>, and \<open>'ROLLBACK'\<close> or
  \<open>`ROLLBACK TO SAVEPOINT ${savepointName}`\<close>.
\<close>

definition frame_name :: "int \<Rightarrow> string" where
  "frame_name depth = ''isomorphic_sqlite_'' @ toString depth"

definition opening_sql :: "mode \<Rightarrow> int \<Rightarrow> string" where
  "opening_sql m depth =
     (if depth = 0 then ''BEGIN '' @ mode_text m else ''SAVEPOINT '' @ frame_name depth)"

definition closing_sql :: "int \<Rightarrow> string" where
  "closing_sql depth =
     (if depth = 0 then ''COMMIT'' else ''RELEASE SAVEPOINT '' @ frame_name depth)"

definition rollback_sql :: "int \<Rightarrow> string" where
  "rollback_sql depth =
     (if depth = 0 then ''ROLLBACK'' else ''ROLLBACK TO SAVEPOINT '' @ frame_name depth)"

subsection \<open>Transaction bodies\<close>

text \<open>
  A body is user code that works on the handle \<open>tx\<close> it is given and awaits each
  call before the next.  \<open>Exec sql k\<close> awaits \<open>tx.exec(sql)\<close> and goes on with \<open>k\<close>
  applied to how the call settled (a body without \<open>try\<close> continues with \<open>Throw\<close> on
  a rejection); \<open>Nested mode body k\<close> awaits a nested \<open>tx.transaction(body)\<close> attempt;
  \<open>Other f k\<close> awaits any other method of the declared type of \<open>tx\<close>, all of which
  act on the driver object alone.
\<close>

datatype ('d, 'v) prog =
    Return "'v jsval"
  | Throw "'v jsval"
  | Exec string "'v outcome \<Rightarrow> ('d, 'v) prog"
  | Nested mode "('d, 'v) prog" "'v outcome \<Rightarrow> ('d, 'v) prog"
  | Other "'d \<Rightarrow> 'v outcome \<times> 'd" "'v outcome \<Rightarrow> ('d, 'v) prog"

primrec run_prog ::
  "('d, 'v) driver \<Rightarrow> ('d, 'v) prog \<Rightarrow> ('d, 'v) base_database
    \<Rightarrow> 'v outcome \<times> ('d, 'v) base_database" where
  "run_prog drv (Return v) = (\<lambda>this. (Resolved v, this))"
| "run_prog drv (Throw v) = (\<lambda>this. (Rejected v, this))"
| "run_prog drv (Exec sql k) =
     (\<lambda>this. case exec drv sql this of (r, this') \<Rightarrow> run_prog drv (k r) this')"
| "run_prog drv (Nested m body k) =
     (\<lambda>this. case transaction drv (run_prog drv body) m this of
                (r, this') \<Rightarrow> run_prog drv (k r) this')"
| "run_prog drv (Other f k) =
     (\<lambda>this. case f (raw_db this) of
                (r, d) \<Rightarrow> run_prog drv (k r) (this\<lparr>raw_db := d\<rparr>))"

text \<open>The usual body step without \<open>try\<close>: a rejected call is rethrown.\<close>

definition or_throw :: "('d, 'v) prog \<Rightarrow> 'v outcome \<Rightarrow> ('d, 'v) prog" where
  "or_throw k r = (case r of Rejected err \<Rightarrow> Throw err | Resolved _ \<Rightarrow> k)"

subsection \<open>Drivers used as concrete collaborators\<close>

text \<open>A driver that accepts every statement.\<close>

definition accepting :: "(unit, 'v) driver" where
  "accepting =
     \<lparr>db_exec = (\<lambda>sql d. (None, d)), db_close = (\<lambda>d. (None, d)),
      db_backup = (\<lambda>d. (Resolved Undefined, d)), db_serialize = (\<lambda>d. (Resolved Undefined, d))\<rparr>"

text \<open>
  A driver that follows the transaction rules of SQLite on a stack of open frames
  (innermost first; the empty name stands for \<open>BEGIN\<close>): \<open>BEGIN\<close> needs an empty
  stack, \<open>COMMIT\<close> and \<open>ROLLBACK\<close> need an open transaction, \<open>RELEASE\<close> and
  \<open>ROLLBACK TO\<close> need the named savepoint, and \<open>ROLLBACK TO\<close> keeps that savepoint
  open.  Every other statement is accepted.
\<close>

definition strip_prefix :: "string \<Rightarrow> string \<Rightarrow> string option" where
  "strip_prefix p s = (if take (length p) s = p then Some (drop (length p) s) else None)"

definition frames_exec :: "string \<Rightarrow> string list \<Rightarrow> 'v jsval option \<times> string list" where
  "frames_exec sql st =
     (case strip_prefix ''ROLLBACK TO SAVEPOINT '' sql of
        Some n \<Rightarrow> (if n \<in> set st then (None, dropWhile (\<lambda>x. x \<noteq> n) st)
                   else (Some (Error ''no such savepoint''), st))
      | None \<Rightarrow>
     (case strip_prefix ''RELEASE SAVEPOINT '' sql of
        Some n \<Rightarrow> (if n \<in> set st then (None, tl (dropWhile (\<lambda>x. x \<noteq> n) st))
                   else (Some (Error ''no such savepoint''), st))
      | None \<Rightarrow>
     (case strip_prefix ''SAVEPOINT '' sql of
        Some n \<Rightarrow> (None, n # st)
      | None \<Rightarrow>
     (case strip_prefix ''BEGIN'' sql of
        Some _ \<Rightarrow> (if st = [] then (None, [''''])
                   else (Some (Error ''cannot start a transaction within a transaction''), st))
      | None \<Rightarrow>
     (if sql = ''COMMIT'' then
        (if st = [] then (Some (Error ''cannot commit - no transaction is active''), st)
         else (None, []))
      else if sql = ''ROLLBACK'' then
        (if st = [] then (Some (Error ''cannot rollback - no transaction is active''), st)
         else (None, []))
      else (None, st))))))"

definition frames :: "(string list, 'v) driver" where
  "frames =
     \<lparr>db_exec = frames_exec, db_close = (\<lambda>d. (None, d)),
      db_backup = (\<lambda>d. (Resolved Undefined, d)), db_serialize = (\<lambda>d. (Resolved Undefined, d))\<rparr>"

text \<open>
  A driver whose handle can be closed.  The state is whether the handle is open; on a
  closed handle every call but \<open>close\<close> throws, as the SQLite bindings do.
\<close>

definition closable :: "(bool, 'v) driver" where
  "closable =
     \<lparr>db_exec = (\<lambda>sql is_open.
         if is_open then (None, is_open) else (Some (Error ''database is not open''), is_open)),
      db_close = (\<lambda>is_open. (None, False)),
      db_backup = (\<lambda>is_open.
         if is_open then (Resolved Undefined, is_open)
         else (Rejected (Error ''database is not open''), is_open)),
      db_serialize = (\<lambda>is_open.
         if is_open then (Resolved Undefined, is_open)
         else (Rejected (Error ''database is not open''), is_open))\<rparr>"

subsection \<open>Counting open frames in the history\<close>

text \<open>
  A frame is opened by a \<open>BEGIN\<close> or \<open>SAVEPOINT\<close> statement and closed by \<open>COMMIT\<close>,
  \<open>ROLLBACK\<close>, \<open>RELEASE SAVEPOINT\<close> or \<open>ROLLBACK TO SAVEPOINT\<close>.  \<open>open_frames\<close> counts,
  over a history, the frames that \<open>transaction\<close> opened and has not closed; only
  statements the driver accepted count.
\<close>

definition opens_frame :: "string \<Rightarrow> bool" where
  "opens_frame sql \<longleftrightarrow>
     strip_prefix ''BEGIN'' sql \<noteq> None \<or> strip_prefix ''SAVEPOINT '' sql \<noteq> None"

definition closes_frame :: "string \<Rightarrow> bool" where
  "closes_frame sql \<longleftrightarrow>
     sql = ''COMMIT'' \<or> sql = ''ROLLBACK'' \<or> strip_prefix ''RELEASE SAVEPOINT '' sql \<noteq> None
       \<or> strip_prefix ''ROLLBACK TO SAVEPOINT '' sql \<noteq> None"

definition frame_change :: "issue \<Rightarrow> int" where
  "frame_change e =
     (if issue_origin e = Manager \<and> issue_ok e then
        (if opens_frame (issue_sql e) then 1 else if closes_frame (issue_sql e) then - 1 else 0)
      else 0)"

definition open_frames :: "issue list \<Rightarrow> int" where
  "open_frames log = sum_list (map frame_change log)"

text \<open>The driver accepted every statement that \<open>transaction\<close> issued.\<close>

definition manager_accepted :: "issue list \<Rightarrow> bool" where
  "manager_accepted log \<longleftrightarrow> list_all (\<lambda>e. issue_origin e = Manager \<longrightarrow> issue_ok e) log"

text \<open>
  \<open>in_step_from n log\<close>: at every statement of \<open>log\<close> that caller code issued, the depth
  recorded with it is \<open>n\<close> plus the frames opened and not closed before it in \<open>log\<close>.
\<close>

fun in_step_from :: "int \<Rightarrow> issue list \<Rightarrow> bool" where
  "in_step_from n [] \<longleftrightarrow> True"
| "in_step_from n (e # es) \<longleftrightarrow>
     (issue_origin e = Caller \<longrightarrow> issue_depth e = n) \<and> in_step_from (n + frame_change e) es"

text \<open>
  The depth counter agrees with the history: it equals the number of open frames, it did
  so at every statement of caller code, and it is not negative.
\<close>

definition tracks :: "('d, 'v) base_database \<Rightarrow> bool" where
  "tracks this \<longleftrightarrow>
     transactionDepth this = open_frames (issued this) \<and> in_step_from 0 (issued this)
       \<and> 0 \<le> transactionDepth this"

text \<open>Neither the counter nor any depth recorded in the history is below \<open>lb\<close>.\<close>

definition depth_floor :: "int \<Rightarrow> ('d, 'v) base_database \<Rightarrow> bool" where
  "depth_floor lb this \<longleftrightarrow>
     lb \<le> transactionDepth this \<and> list_all (\<lambda>e. lb \<le> issue_depth e) (issued this)"

subsection \<open>The declared operation surfaces (src/typings.ts)\<close>

text \<open>
  The members of the interface \<open>IDatabase\<close>, by name and in the order of declaration,
  the utility type \<open>Omit<T, K>\<close> on member names, and
  \<open>ITransaction = Omit<IDatabase, 'backup' | 'serialize' | 'close' | 'begin' | 'commit' | 'rollback'>\<close>,
  the type of the first parameter of a transaction body.
\<close>

definition IDatabase :: "string list" where
  "IDatabase =
     [''run'', ''get'', ''all'', ''prepare'', ''exec'', ''begin'', ''commit'', ''rollback'',
      ''transaction'', ''function'', ''aggregate'', ''loadExtension'', ''backup'', ''pragma'',
      ''attach'', ''serialize'', ''close'', ''raw'']"

definition Omit :: "string list \<Rightarrow> string list \<Rightarrow> string list" where
  "Omit T K = filter (\<lambda>member. member \<notin> set K) T"

definition ITransaction :: "string list" where
  "ITransaction =
     Omit IDatabase [''backup'', ''serialize'', ''close'', ''begin'', ''commit'', ''rollback'']"

section \<open>Promises and the job queue\<close>

text \<open>
  The session class chains promises, so the promise machinery is modelled as far as
  the class uses it.  A promise object is named by where it was created: \<open>Queue 0\<close>
  is the promise that \<open>createDb\<close> returned to the constructor, and the \<open>n\<close>-th call
  of \<open>#enqueue\<close> creates \<open>Result n\<close> (\<open>resultPromise\<close>), \<open>Queue n\<close>
  (\<open>queueUpdatePromise\<close>) and \<open>Guard n\<close> (the promise returned by
  \<open>queueUpdatePromise.catch(...)\<close>, which nobody keeps).
\<close>

datatype pid = Queue nat | Result nat | Guard nat

text \<open>
  An operation \<open>(db) => ...\<close> runs on the engine in segments: \<open>Segment upd k\<close> runs
  synchronously, changing the engine state by \<open>upd\<close>, and suspends; what follows,
  \<open>k\<close>, may depend on the state the segment found and is resumed by a later job.
  \<open>Finish out\<close> is the settlement of the promise the operation returned.  Other jobs
  can run between two segments.
\<close>

datatype ('e, 'v) task =
    Finish "'v outcome"
  | Segment "'e \<Rightarrow> 'e" "'e \<Rightarrow> ('e, 'v) task"

text \<open>An operation run from start to end with nothing in between.\<close>

primrec run_task :: "('e, 'v) task \<Rightarrow> 'e \<Rightarrow> 'v outcome \<times> 'e" where
  "run_task (Finish out) = (\<lambda>e. (out, e))"
| "run_task (Segment upd k) = (\<lambda>e. run_task (k e) (upd e))"

text \<open>An operation of one segment, given by its outcome and effect.\<close>

definition atomic :: "('e \<Rightarrow> 'v outcome \<times> 'e) \<Rightarrow> ('e, 'v) task" where
  "atomic f = Segment (\<lambda>e. snd (f e)) (\<lambda>e. Finish (fst (f e)))"

text \<open>
  The callbacks that \<open>#enqueue\<close> registers:
  \<open>CallOperation operation\<close> is \<open>(db) => operation(db)\<close>;
  \<open>AwaitResult resultPromise\<close> is
  \<open>async (db) => { try { await resultPromise } catch {} return db }\<close>;
  \<open>Swallow\<close> is the \<open>() => {}\<close> given to \<open>catch\<close>; and \<open>Resume db\<close> is the rest of the
  \<open>async\<close> function after its \<open>await\<close>, which returns \<open>db\<close> however the awaited promise
  settled.
\<close>

datatype ('e, 'v) handler =
    CallOperation "('e, 'v) task"
  | AwaitResult pid
  | Swallow
  | Resume "'v jsval"

text \<open>
  A job of the microtask queue: a callback to run with the settlement of the promise it
  was registered on, settling the promise derived by \<open>then\<close> or \<open>catch\<close>; or the rest
  of a suspended operation, which settles the promise derived for it.
\<close>

datatype ('e, 'v) job =
    RunReaction "('e, 'v) handler" pid "'v outcome"
  | RunTask "('e, 'v) task" pid

datatype 'v pstate = Pending | Settled "'v outcome"

text \<open>
  A promise: its state, the callbacks registered while it was pending, and whether a
  callback was ever registered on it (a rejected promise on which none was is an
  unhandled rejection).
\<close>

record ('e, 'v) promise =
  state :: "'v pstate"
  reactions :: "(('e, 'v) handler \<times> pid) list"
  handled :: bool

text \<open>
  What is observed of a run: an operation is invoked, a segment of it runs on the
  engine, a promise settles.  The operation is named by its result promise.
\<close>

datatype 'v event = Invoke pid | Step pid | Settle pid "'v outcome"

text \<open>
  A \<open>Database\<close> instance in its environment: the promises, the pending jobs in order,
  the field \<open>#queue\<close>, the number of \<open>#enqueue\<close> calls so far, the state of the engine
  that \<open>createDb\<close> opens, and the events so far.
\<close>

record ('e, 'v) session =
  cells :: "pid \<Rightarrow> ('e, 'v) promise"
  jobs :: "('e, 'v) job list"
  queue :: pid
  submitted :: nat
  engine :: 'e
  trace :: "'v event list"

definition fresh_promise :: "('e, 'v) promise" where
  "fresh_promise = \<lparr>state = Pending, reactions = [], handled = False\<rparr>"

text \<open>The constructor: \<open>this.#queue = createDb(filename, options)\<close>, still pending.\<close>

definition new_Database :: "'e \<Rightarrow> ('e, 'v) session" where
  "new_Database e =
     \<lparr>cells = (\<lambda>_. fresh_promise), jobs = [], queue = Queue 0, submitted = 0, engine = e,
      trace = []\<rparr>"

text \<open>Settling a pending promise schedules its callbacks, in the order of registration.\<close>

definition settle :: "pid \<Rightarrow> 'v outcome \<Rightarrow> ('e, 'v) session \<Rightarrow> ('e, 'v) session" where
  "settle p out s =
     (case state (cells s p) of
        Settled _ \<Rightarrow> s
      | Pending \<Rightarrow>
          s\<lparr>cells := (cells s)(p := (cells s p)\<lparr>state := Settled out, reactions := []\<rparr>),
            jobs := jobs s @ map (\<lambda>(h, target). RunReaction h target out) (reactions (cells s p)),
            trace := trace s @ [Settle p out]\<rparr>)"

text \<open>
  \<open>p.then(h)\<close>, \<open>p.catch(h)\<close> and \<open>await p\<close>, with \<open>target\<close> the promise derived: the
  callback waits on a pending promise and is scheduled at once on a settled one.
\<close>

definition promise_then ::
  "pid \<Rightarrow> ('e, 'v) handler \<Rightarrow> pid \<Rightarrow> ('e, 'v) session \<Rightarrow> ('e, 'v) session" where
  "promise_then p h target s =
     (case state (cells s p) of
        Pending \<Rightarrow>
          s\<lparr>cells := (cells s)(p := (cells s p)\<lparr>reactions := reactions (cells s p) @ [(h, target)],
                                                 handled := True\<rparr>)\<rparr>
      | Settled out \<Rightarrow>
          s\<lparr>cells := (cells s)(p := (cells s p)\<lparr>handled := True\<rparr>),
            jobs := jobs s @ [RunReaction h target out]\<rparr>)"

text \<open>Run an operation up to its next suspension, or settle its promise at its end.\<close>

definition advance :: "('e, 'v) task \<Rightarrow> pid \<Rightarrow> ('e, 'v) session \<Rightarrow> ('e, 'v) session" where
  "advance t target s =
     (case t of
        Finish out \<Rightarrow> settle target out s
      | Segment upd k \<Rightarrow>
          s\<lparr>engine := upd (engine s),
            jobs := jobs s @ [RunTask (k (engine s)) target],
            trace := trace s @ [Step target]\<rparr>)"

text \<open>
  One job.  The callbacks given to \<open>then\<close> are fulfilment callbacks, so a rejection
  passes them by and rejects the derived promise; \<open>catch\<close> is the other way round.
\<close>

fun run_job :: "('e, 'v) job \<Rightarrow> ('e, 'v) session \<Rightarrow> ('e, 'v) session" where
  "run_job (RunReaction (CallOperation operation) target (Resolved db)) s =
     advance operation target (s\<lparr>trace := trace s @ [Invoke target]\<rparr>)"
| "run_job (RunReaction (CallOperation operation) target (Rejected err)) s =
     settle target (Rejected err) s"
| "run_job (RunReaction (AwaitResult resultPromise) target (Resolved db)) s =
     promise_then resultPromise (Resume db) target s"
| "run_job (RunReaction (AwaitResult resultPromise) target (Rejected err)) s =
     settle target (Rejected err) s"
| "run_job (RunReaction Swallow target (Resolved v)) s = settle target (Resolved v) s"
| "run_job (RunReaction Swallow target (Rejected err)) s = settle target (Resolved Undefined) s"
| "run_job (RunReaction (Resume db) target _) s = settle target (Resolved db) s"
| "run_job (RunTask t target) s = advance t target s"

definition tick :: "('e, 'v) session \<Rightarrow> ('e, 'v) session" where
  "tick s = (case jobs s of [] \<Rightarrow> s | j # js \<Rightarrow> run_job j (s\<lparr>jobs := js\<rparr>))"

text \<open>Run \<open>n\<close> jobs, or fewer when none is left.\<close>

primrec drain :: "nat \<Rightarrow> ('e, 'v) session \<Rightarrow> ('e, 'v) session" where
  "drain 0 s = s"
| "drain (Suc n) s = drain n (tick s)"

section \<open>\<open>Database\<close> (src/database.ts)\<close>

text \<open>\<open>#enqueue(operation)\<close>, returning \<open>resultPromise\<close>.\<close>

definition enqueue :: "('e, 'v) task \<Rightarrow> ('e, 'v) session \<Rightarrow> pid \<times> ('e, 'v) session" where
  "enqueue operation s =
     (let resultPromise = Result (submitted s + 1);
          queueUpdatePromise = Queue (submitted s + 1);
          s1 = promise_then (queue s) (CallOperation operation) resultPromise s;
          s2 = promise_then (queue s) (AwaitResult resultPromise) queueUpdatePromise s1;
          s3 = promise_then queueUpdatePromise Swallow (Guard (submitted s + 1)) s2
      in (resultPromise, s3\<lparr>queue := queueUpdatePromise, submitted := submitted s + 1\<rparr>))"

text \<open>
  The promise of \<open>createDb\<close> settles: fulfilled with the database object, or rejected
  (unknown driver, no driver found, a file that cannot be opened).
\<close>

definition createDb_settles :: "'v outcome \<Rightarrow> ('e, 'v) session \<Rightarrow> ('e, 'v) session" where
  "createDb_settles out s = settle (Queue 0) out s"

text \<open>A caller submits operations one after the other without awaiting any of them.\<close>

definition submit_all :: "('e, 'v) task list \<Rightarrow> ('e, 'v) session \<Rightarrow> ('e, 'v) session" where
  "submit_all ops s = foldl (\<lambda>s operation. snd (enqueue operation s)) s ops"

text \<open>
  The public methods all have the form \<open>return this.#enqueue((db) => db.method(...))\<close>.
  A call names the method and its arguments: \<open>CallTransaction fn m\<close> is
  \<open>transaction(fn)\<close> invoked plainly or as \<open>.deferred\<close>, \<open>.immediate\<close>, \<open>.exclusive\<close>, and
  \<open>CallOther f\<close> stands for the methods that act on the driver object alone.
\<close>

datatype ('d, 'v) "call" =
    CallExec string
  | CallBegin
  | CallCommit
  | CallRollback
  | CallTransaction "('d, 'v) prog" mode
  | CallBackup
  | CallSerialize
  | CallClose
  | CallRaw
  | CallOther "'d \<Rightarrow> 'v outcome \<times> 'd"

text \<open>
  \<open>db.method(...)\<close> on the instance that \<open>createDb\<close> resolved with, an instance of one
  of the three subclasses: \<open>backup\<close> and \<open>serialize\<close> are the overriding methods, the
  others are those of \<open>BaseDatabase\<close>.
\<close>

fun db_method ::
  "('d, 'v) driver \<Rightarrow> ('d, 'v) call \<Rightarrow> ('d, 'v) base_database
    \<Rightarrow> 'v outcome \<times> ('d, 'v) base_database" where
  "db_method drv (CallExec sql) = exec drv sql"
| "db_method drv CallBegin = begin_tx drv"
| "db_method drv CallCommit = commit drv"
| "db_method drv CallRollback = rollback drv"
| "db_method drv (CallTransaction fn m) = transaction drv (run_prog drv fn) m"
| "db_method drv CallBackup = backup_override drv"
| "db_method drv CallSerialize = serialize_override drv"
| "db_method drv CallClose = close drv"
| "db_method drv CallRaw = raw"
| "db_method drv (CallOther f) =
     (\<lambda>this. case f (raw_db this) of (r, d) \<Rightarrow> (r, this\<lparr>raw_db := d\<rparr>))"

text \<open>
  The operation \<open>(db) => db.method(...)\<close>.  Where an operation suspends does not matter
  to the queue (see \<open>at_boundary_drains\<close>, which holds for every task), so the methods
  enter as operations of one segment.
\<close>

definition operation ::
  "('d, 'v) driver \<Rightarrow> ('d, 'v) call \<Rightarrow> (('d, 'v) base_database, 'v) task" where
  "operation drv c = atomic (db_method drv c)"

definition Database_call ::
  "('d, 'v) driver \<Rightarrow> ('d, 'v) call \<Rightarrow> (('d, 'v) base_database, 'v) session
    \<Rightarrow> pid \<times> (('d, 'v) base_database, 'v) session" where
  "Database_call drv c s = enqueue (operation drv c) s"

subsection \<open>Operations run one at a time, for comparison\<close>

text \<open>The events of one operation run without interruption, ending in its settlement.\<close>

primrec task_events :: "pid \<Rightarrow> ('e, 'v) task \<Rightarrow> 'e \<Rightarrow> 'v event list" where
  "task_events r (Finish out) = (\<lambda>e. [Settle r out])"
| "task_events r (Segment upd k) = (\<lambda>e. Step r # task_events r (k e) (upd e))"

text \<open>The engine after the operations have run one after the other.\<close>

fun run_ops :: "('e, 'v) task list \<Rightarrow> 'e \<Rightarrow> 'e" where
  "run_ops [] e = e"
| "run_ops (t # ts) e = run_ops ts (snd (run_task t e))"

text \<open>
  The events when the operations numbered from \<open>n + 1\<close> run strictly one after the
  other: each is invoked, runs all its segments and settles, then its queue promise and
  the guard settle, and only then is the next one invoked.
\<close>

fun one_at_a_time :: "nat \<Rightarrow> ('e, 'v) task list \<Rightarrow> 'e \<Rightarrow> 'v event list" where
  "one_at_a_time n [] e = []"
| "one_at_a_time n (t # ts) e =
     Invoke (Result (Suc n)) # task_events (Result (Suc n)) t e
       @ [Settle (Queue (Suc n)) (Resolved Db), Settle (Guard (Suc n)) (Resolved Db)]
       @ one_at_a_time (Suc n) ts (snd (run_task t e))"

text \<open>The outcome of operation \<open>i\<close> (from 0) on the engine its predecessors left.\<close>

definition outcome_of :: "('e, 'v) task list \<Rightarrow> 'e \<Rightarrow> nat \<Rightarrow> 'v outcome" where
  "outcome_of ops e i = fst (run_task (ops ! i) (run_ops (take i ops) e))"

text \<open>The callbacks that submitting operation \<open>i\<close> registered on \<open>Queue i\<close>.\<close>

definition follow :: "('e, 'v) task list \<Rightarrow> nat \<Rightarrow> (('e, 'v) handler \<times> pid) list" where
  "follow ops i =
     (if i < length ops
      then [(CallOperation (ops ! i), Result (Suc i)), (AwaitResult (Result (Suc i)), Queue (Suc i))]
      else [])"

definition fire :: "'v outcome \<Rightarrow> (('e, 'v) handler \<times> pid) list \<Rightarrow> ('e, 'v) job list" where
  "fire out rs = map (\<lambda>(h, target). RunReaction h target out) rs"

text \<open>
  The session in which, of the submitted operations \<open>ops\<close>, the first \<open>k\<close> have run one
  at a time in the order of submission and the others still wait: the promises of the
  first \<open>k\<close> are settled, each result promise with the operation's own outcome, the
  queue promises with the database object; the next operation, if any, is scheduled.
\<close>

definition boundary_cells ::
  "('e, 'v) task list \<Rightarrow> 'e \<Rightarrow> nat \<Rightarrow> pid \<Rightarrow> ('e, 'v) promise" where
  "boundary_cells ops e k p =
     (case p of
        Queue i \<Rightarrow>
          (if i \<le> k then
             \<lparr>state = Settled (Resolved Db), reactions = [], handled = (0 < i \<or> ops \<noteq> [])\<rparr>
           else if i \<le> length ops then
             \<lparr>state = Pending, reactions = (Swallow, Guard i) # follow ops i, handled = True\<rparr>
           else fresh_promise)
      | Result i \<Rightarrow>
          (if 0 < i \<and> i \<le> k then
             \<lparr>state = Settled (outcome_of ops e (i - 1)), reactions = [], handled = True\<rparr>
           else fresh_promise)
      | Guard i \<Rightarrow>
          (if 0 < i \<and> i \<le> k then
             \<lparr>state = Settled (Resolved Db), reactions = [], handled = False\<rparr>
           else fresh_promise))"

definition at_boundary :: "('e, 'v) task list \<Rightarrow> 'e \<Rightarrow> nat \<Rightarrow> ('e, 'v) session" where
  "at_boundary ops e k =
     \<lparr>cells = boundary_cells ops e k,
      jobs = fire (Resolved Db) (follow ops k),
      queue = Queue (length ops),
      submitted = length ops,
      engine = run_ops (take k ops) e,
      trace = Settle (Queue 0) (Resolved Db) # one_at_a_time 0 (take k ops) e\<rparr>"

text \<open>The session while \<open>createDb\<close> is pending and \<open>ops\<close> have been submitted.\<close>

definition waiting :: "('e, 'v) task list \<Rightarrow> 'e \<Rightarrow> ('e, 'v) session" where
  "waiting ops e =
     \<lparr>cells = (boundary_cells ops e 0)
        (Queue 0 := \<lparr>state = Pending, reactions = follow ops 0, handled = (ops \<noteq> [])\<rparr>),
      jobs = [],
      queue = Queue (length ops),
      submitted = length ops,
      engine = e,
      trace = []\<rparr>"

subsection \<open>The session in the middle of an operation\<close>

text \<open>
  What is left of an operation, and the engine, after \<open>j\<close> of its segments have run;
  \<open>deep j\<close> says that the operation has that many segments on the engine it starts on.
\<close>

fun residual :: "nat \<Rightarrow> ('e, 'v) task \<Rightarrow> 'e \<Rightarrow> ('e, 'v) task \<times> 'e" where
  "residual 0 t e = (t, e)"
| "residual (Suc j) (Segment upd k) e = residual j (k e) (upd e)"
| "residual (Suc j) (Finish out) e = (Finish out, e)"

fun deep :: "nat \<Rightarrow> ('e, 'v) task \<Rightarrow> 'e \<Rightarrow> bool" where
  "deep 0 t e \<longleftrightarrow> True"
| "deep (Suc j) (Segment upd k) e \<longleftrightarrow> deep j (k e) (upd e)"
| "deep (Suc j) (Finish out) e \<longleftrightarrow> False"

text \<open>
  Between two boundaries the session passes through four kinds of states while operation
  \<open>k + 1\<close> is served.  \<open>called\<close>: the operation has been invoked and has run its first
  segment (or has settled at once), and the queue's \<open>async\<close> continuation has not started
  yet.  \<open>running\<close>: the continuation awaits the result promise and \<open>j\<close> segments have
  run.  \<open>finished\<close>: the result promise is settled and the continuation is about to
  resume.  \<open>resumed\<close>: the queue promise is fulfilled and the guard is still to settle.
\<close>

definition called :: "('e, 'v) task list \<Rightarrow> 'e \<Rightarrow> nat \<Rightarrow> ('e, 'v) session" where
  "called ops e k =
     (case ops ! k of
        Finish out \<Rightarrow>
          (at_boundary ops e k)
            \<lparr>cells := (boundary_cells ops e k)
               (Result (Suc k) := \<lparr>state = Settled out, reactions = [], handled = False\<rparr>),
             jobs := [RunReaction (AwaitResult (Result (Suc k))) (Queue (Suc k)) (Resolved Db)],
             engine := run_ops (take k ops) e,
             trace := trace (at_boundary ops e k) @ [Invoke (Result (Suc k)), Settle (Result (Suc k)) out]\<rparr>
      | Segment upd c \<Rightarrow>
          (at_boundary ops e k)
            \<lparr>jobs := [RunReaction (AwaitResult (Result (Suc k))) (Queue (Suc k)) (Resolved Db),
                      RunTask (c (run_ops (take k ops) e)) (Result (Suc k))],
             engine := upd (run_ops (take k ops) e),
             trace := trace (at_boundary ops e k) @ [Invoke (Result (Suc k)), Step (Result (Suc k))]\<rparr>)"

definition running :: "('e, 'v) task list \<Rightarrow> 'e \<Rightarrow> nat \<Rightarrow> nat \<Rightarrow> ('e, 'v) session" where
  "running ops e k j =
     (at_boundary ops e k)
       \<lparr>cells := (boundary_cells ops e k)
          (Result (Suc k) :=
             \<lparr>state = Pending, reactions = [(Resume Db, Queue (Suc k))], handled = True\<rparr>),
        jobs := [RunTask (fst (residual j (ops ! k) (run_ops (take k ops) e))) (Result (Suc k))],
        engine := snd (residual j (ops ! k) (run_ops (take k ops) e)),
        trace := trace (at_boundary ops e k)
                   @ Invoke (Result (Suc k)) # replicate j (Step (Result (Suc k)))\<rparr>"

definition finished :: "('e, 'v) task list \<Rightarrow> 'e \<Rightarrow> nat \<Rightarrow> ('e, 'v) session" where
  "finished ops e k =
     (at_boundary ops e k)
       \<lparr>cells := (boundary_cells ops e k)
          (Result (Suc k) :=
             \<lparr>state = Settled (outcome_of ops e k), reactions = [], handled = True\<rparr>),
        jobs := [RunReaction (Resume Db) (Queue (Suc k)) (outcome_of ops e k)],
        engine := run_ops (take (Suc k) ops) e,
        trace := trace (at_boundary ops e k)
                   @ Invoke (Result (Suc k))
                     # task_events (Result (Suc k)) (ops ! k) (run_ops (take k ops) e)\<rparr>"

definition resumed :: "('e, 'v) task list \<Rightarrow> 'e \<Rightarrow> nat \<Rightarrow> ('e, 'v) session" where
  "resumed ops e k =
     (at_boundary ops e k)
       \<lparr>cells := (boundary_cells ops e k)
          (Result (Suc k) :=
             \<lparr>state = Settled (outcome_of ops e k), reactions = [], handled = True\<rparr>,
           Queue (Suc k) := \<lparr>state = Settled (Resolved Db), reactions = [], handled = True\<rparr>),
        jobs := RunReaction Swallow (Guard (Suc k)) (Resolved Db)
                  # fire (Resolved Db) (follow ops (Suc k)),
        engine := run_ops (take (Suc k) ops) e,
        trace := trace (at_boundary ops e k)
                   @ Invoke (Result (Suc k))
                     # task_events (Result (Suc k)) (ops ! k) (run_ops (take k ops) e)
                   @ [Settle (Queue (Suc k)) (Resolved Db)]\<rparr>"

text \<open>Where a session is: before \<open>createDb\<close> has resolved, at a boundary, or in between.\<close>

datatype position = Waiting | Boundary nat | Called nat | Running nat nat | Finished nat | Resumed nat

fun session_at :: "('e, 'v) task list \<Rightarrow> 'e \<Rightarrow> position \<Rightarrow> ('e, 'v) session" where
  "session_at ops e Waiting = waiting ops e"
| "session_at ops e (Boundary k) = at_boundary ops e k"
| "session_at ops e (Called k) = called ops e k"
| "session_at ops e (Running k j) = running ops e k j"
| "session_at ops e (Finished k) = finished ops e k"
| "session_at ops e (Resumed k) = resumed ops e k"

text \<open>The positions that make sense for the operations submitted.\<close>

fun position_ok :: "('e, 'v) task list \<Rightarrow> 'e \<Rightarrow> position \<Rightarrow> bool" where
  "position_ok ops e Waiting \<longleftrightarrow> True"
| "position_ok ops e (Boundary k) \<longleftrightarrow> k \<le> length ops"
| "position_ok ops e (Called k) \<longleftrightarrow> k < length ops"
| "position_ok ops e (Running k j) \<longleftrightarrow>
     k < length ops \<and> 0 < j \<and> deep j (ops ! k) (run_ops (take k ops) e)"
| "position_ok ops e (Finished k) \<longleftrightarrow> k < length ops"
| "position_ok ops e (Resumed k) \<longleftrightarrow> k < length ops"

subsection \<open>Schedules\<close>

text \<open>
  What can happen to a session, in any order: a caller submits an operation (in its
  first run, in a callback of a promise it awaited, or from a timer), the promise of
  \<open>createDb\<close> is fulfilled, or the next pending job runs.
\<close>

datatype ('e, 'v) action = Submit "('e, 'v) task" | CreateDbResolves | RunJob

fun perform :: "('e, 'v) action \<Rightarrow> ('e, 'v) session \<Rightarrow> ('e, 'v) session" where
  "perform (Submit t) s = snd (enqueue t s)"
| "perform CreateDbResolves s = createDb_settles (Resolved Db) s"
| "perform RunJob s = tick s"

definition run_schedule :: "('e, 'v) action list \<Rightarrow> ('e, 'v) session \<Rightarrow> ('e, 'v) session" where
  "run_schedule acts s = foldl (\<lambda>s a. perform a s) s acts"

text \<open>The operations that a schedule submits, in order.\<close>

fun submissions :: "('e, 'v) action list \<Rightarrow> ('e, 'v) task list" where
  "submissions [] = []"
| "submissions (Submit t # acts) = t # submissions acts"
| "submissions (_ # acts) = submissions acts"

subsection \<open>A session whose \<open>createDb\<close> failed\<close>

text \<open>
  The events after the first \<open>k\<close> submitted operations have been passed by: no
  operation is invoked; each result promise and each queue promise is rejected with the
  error of \<open>createDb\<close>, and each guard is fulfilled.
\<close>

primrec rejections :: "'v jsval \<Rightarrow> nat \<Rightarrow> 'v event list" where
  "rejections err 0 = []"
| "rejections err (Suc k) =
     rejections err k
       @ [Settle (Result (Suc k)) (Rejected err), Settle (Queue (Suc k)) (Rejected err),
          Settle (Guard (Suc k)) (Resolved Undefined)]"

text \<open>
  The session in which \<open>createDb\<close> was rejected with \<open>err\<close> and the rejection has reached
  the first \<open>k\<close> of the submitted operations.  The engine is as it was.
\<close>

definition rejected_cells ::
  "('e, 'v) task list \<Rightarrow> 'v jsval \<Rightarrow> nat \<Rightarrow> pid \<Rightarrow> ('e, 'v) promise" where
  "rejected_cells ops err k p =
     (case p of
        Queue i \<Rightarrow>
          (if i \<le> k then
             \<lparr>state = Settled (Rejected err), reactions = [], handled = (0 < i \<or> ops \<noteq> [])\<rparr>
           else if i \<le> length ops then
             \<lparr>state = Pending, reactions = (Swallow, Guard i) # follow ops i, handled = True\<rparr>
           else fresh_promise)
      | Result i \<Rightarrow>
          (if 0 < i \<and> i \<le> k then
             \<lparr>state = Settled (Rejected err), reactions = [], handled = False\<rparr>
           else fresh_promise)
      | Guard i \<Rightarrow>
          (if 0 < i \<and> i \<le> k then
             \<lparr>state = Settled (Resolved Undefined), reactions = [], handled = False\<rparr>
           else fresh_promise))"

definition all_rejected :: "('e, 'v) task list \<Rightarrow> 'v jsval \<Rightarrow> 'e \<Rightarrow> nat \<Rightarrow> ('e, 'v) session" where
  "all_rejected ops err e k =
     \<lparr>cells = rejected_cells ops err k,
      jobs = fire (Rejected err) (follow ops k),
      queue = Queue (length ops),
      submitted = length ops,
      engine = e,
      trace = Settle (Queue 0) (Rejected err) # rejections err k\<rparr>"

section \<open>Properties of \<open>BaseDatabase\<close>\<close>

subsection \<open>How a statement and the catch block can end\<close>

lemma exec_from_cases:
  obtains (ok) d where "exec_from who drv sql this =
        (Resolved Undefined, this\<lparr>raw_db := d, issued := issued this @ [(who, sql, True, transactionDepth this)]\<rparr>)"
  | (fail) err d where "exec_from who drv sql this =
        (Rejected err, this\<lparr>raw_db := d, issued := issued this @ [(who, sql, False, transactionDepth this)]\<rparr>)"
proof (cases "db_exec drv sql (raw_db this)")
  case (Pair r d)
  show ?thesis
  proof (cases r)
    case None
    with Pair ok show ?thesis by (simp add: exec_from_def)
  next
    case (Some err)
    with Pair fail show ?thesis by (simp add: exec_from_def)
  qed
qed

lemma exec_from_Resolved:
  "exec_from who drv sql this = (Resolved v, this') \<Longrightarrow>
     v = Undefined \<and> transactionDepth this' = transactionDepth this \<and>
     isClosed this' = isClosed this \<and>
     issued this' = issued this @ [(who, sql, True, transactionDepth this)]"
  by (cases rule: exec_from_cases [of who drv sql this]) auto

lemma exec_from_Rejected:
  "exec_from who drv sql this = (Rejected err, this') \<Longrightarrow>
     transactionDepth this' = transactionDepth this \<and>
     isClosed this' = isClosed this \<and>
     issued this' = issued this @ [(who, sql, False, transactionDepth this)]"
  by (cases rule: exec_from_cases [of who drv sql this]) auto

lemma catch_block_cases:
  obtains (skipped) "transactionDepth this \<le> 0"
      "catch_block drv depth (frame_name depth) err this = (Rejected err, this\<lparr>transactionDepth := depth\<rparr>)"
  | (rolled_back) this' where "transactionDepth this > 0"
      "exec_from Manager drv (rollback_sql depth) this = (Resolved Undefined, this')"
      "catch_block drv depth (frame_name depth) err this = (Rejected err, this'\<lparr>transactionDepth := depth\<rparr>)"
  | (rollback_failed) err2 this' where "transactionDepth this > 0"
      "exec_from Manager drv (rollback_sql depth) this = (Rejected err2, this')"
      "catch_block drv depth (frame_name depth) err this = (Rejected err2, this')"
proof (cases "transactionDepth this > 0")
  case False
  with skipped show ?thesis by (simp add: catch_block_def)
next
  case True
  show ?thesis
  proof (cases "exec_from Manager drv (rollback_sql depth) this")
    case (Pair r this')
    show ?thesis
    proof (cases r)
      case (Resolved v)
      with Pair have "v = Undefined" by (auto dest: exec_from_Resolved)
      with Resolved Pair True rolled_back [of this'] show ?thesis
        by (cases "depth = 0") (simp_all add: catch_block_def rollback_sql_def)
    next
      case (Rejected err2)
      with Pair True rollback_failed [of err2 this'] show ?thesis
        by (cases "depth = 0") (simp_all add: catch_block_def rollback_sql_def)
    qed
  qed
qed


lemma catch_block_extends:
  "\<exists>ext. issued (snd (catch_block drv depth (frame_name depth) err this)) = issued this @ ext"
proof (cases rule: catch_block_cases [of this drv depth err])
  case skipped
  then show ?thesis by simp
next
  case (rolled_back this')
  from exec_from_Resolved [OF rolled_back(2)] rolled_back(3) show ?thesis by simp
next
  case (rollback_failed err2 this')
  from exec_from_Rejected [OF rollback_failed(2)] rollback_failed(3) show ?thesis by simp
qed

lemma transaction_cases:
  fixes this :: "('d, 'v) base_database" and m :: mode
  defines "depth \<equiv> transactionDepth this"
  obtains (open_failed) err this1 where
      "exec_from Manager drv (opening_sql m depth) this = (Rejected err, this1)"
      "transaction drv fn m this = catch_block drv depth (frame_name depth) err this1"
  | (body_failed) this1 err this2 where
      "exec_from Manager drv (opening_sql m depth) this = (Resolved Undefined, this1)"
      "fn (this1\<lparr>transactionDepth := transactionDepth this1 + 1\<rparr>) = (Rejected err, this2)"
      "transaction drv fn m this = catch_block drv depth (frame_name depth) err this2"
  | (close_failed) this1 result this2 err this4 where
      "exec_from Manager drv (opening_sql m depth) this = (Resolved Undefined, this1)"
      "fn (this1\<lparr>transactionDepth := transactionDepth this1 + 1\<rparr>) = (Resolved result, this2)"
      "exec_from Manager drv (closing_sql depth) (this2\<lparr>transactionDepth := transactionDepth this2 - 1\<rparr>) = (Rejected err, this4)"
      "transaction drv fn m this = catch_block drv depth (frame_name depth) err this4"
  | (committed) this1 result this2 this4 where
      "exec_from Manager drv (opening_sql m depth) this = (Resolved Undefined, this1)"
      "fn (this1\<lparr>transactionDepth := transactionDepth this1 + 1\<rparr>) = (Resolved result, this2)"
      "exec_from Manager drv (closing_sql depth) (this2\<lparr>transactionDepth := transactionDepth this2 - 1\<rparr>) = (Resolved Undefined, this4)"
      "transaction drv fn m this = (Resolved result, this4)"
proof -
  have unfold: "transaction drv fn m this =
     (case exec_from Manager drv (opening_sql m depth) this of
           (Rejected err, this1) \<Rightarrow> catch_block drv depth (frame_name depth) err this1
         | (Resolved _, this1) \<Rightarrow>
            (case fn (this1\<lparr>transactionDepth := transactionDepth this1 + 1\<rparr>) of
               (Rejected err, this2) \<Rightarrow> catch_block drv depth (frame_name depth) err this2
             | (Resolved result, this2) \<Rightarrow>
                (case exec_from Manager drv (closing_sql depth) (this2\<lparr>transactionDepth := transactionDepth this2 - 1\<rparr>) of
                      (Rejected err, this4) \<Rightarrow> catch_block drv depth (frame_name depth) err this4
                    | (Resolved _, this4) \<Rightarrow> (Resolved result, this4))))"
    unfolding transaction_def Let_def depth_def opening_sql_def closing_sql_def frame_name_def
    by (cases "transactionDepth this = 0") (simp_all split: prod.splits outcome.splits)
  show ?thesis
  proof (cases "exec_from Manager drv (opening_sql m depth) this")
    case (Pair r1 this1)
    note o = this
    show ?thesis
    proof (cases r1)
      case (Rejected err)
      with o open_failed [of err this1] unfold show ?thesis by simp
    next
      case (Resolved v1)
      with o have v1: "v1 = Undefined" by (auto dest: exec_from_Resolved)
      note o = o [unfolded Resolved v1]
      show ?thesis
      proof (cases "fn (this1\<lparr>transactionDepth := transactionDepth this1 + 1\<rparr>)")
        case (Pair r2 this2)
        note f = this
        show ?thesis
        proof (cases r2)
          case (Rejected err)
          with o f body_failed [of this1 err this2] unfold show ?thesis by simp
        next
          case (Resolved result)
          note f = f [unfolded Resolved]
          show ?thesis
          proof (cases "exec_from Manager drv (closing_sql depth) (this2\<lparr>transactionDepth := transactionDepth this2 - 1\<rparr>)")
            case (Pair r3 this4)
            note c = this
            show ?thesis
            proof (cases r3)
              case (Rejected err)
              with o f c close_failed [of this1 result this2 err this4] unfold show ?thesis by simp
            next
              case (Resolved v3)
              with c have "v3 = Undefined" by (auto dest: exec_from_Resolved)
              with Resolved o f c committed [of this1 result this2 this4] unfold show ?thesis by simp
            qed
          qed
        qed
      qed
    qed
  qed
qed

subsection \<open>The history only grows\<close>

lemma transaction_extends:
  assumes fn: "\<And>s. \<exists>ext. issued (snd (fn s)) = issued s @ ext"
  shows "\<exists>ext. issued (snd (transaction drv fn m this)) = issued this @ ext"
proof (cases rule: transaction_cases [where drv=drv and m=m and this=this and fn=fn])
  case (open_failed err this1)
  from catch_block_extends [of drv "transactionDepth this" err this1]
    exec_from_Rejected [OF open_failed(1)] open_failed(2)
  show ?thesis by auto
next
  case (body_failed this1 err this2)
  from fn [of "this1\<lparr>transactionDepth := transactionDepth this1 + 1\<rparr>"] body_failed(2)
  obtain e1 where "issued this2 = issued this1 @ e1" by auto
  with catch_block_extends [of drv "transactionDepth this" err this2]
    exec_from_Resolved [OF body_failed(1)] body_failed(3)
  show ?thesis by auto
next
  case (close_failed this1 result this2 err this4)
  from fn [of "this1\<lparr>transactionDepth := transactionDepth this1 + 1\<rparr>"] close_failed(2)
  obtain e1 where "issued this2 = issued this1 @ e1" by auto
  with catch_block_extends [of drv "transactionDepth this" err this4]
    exec_from_Resolved [OF close_failed(1)] exec_from_Rejected [OF close_failed(3)] close_failed(4)
  show ?thesis by auto
next
  case (committed this1 result this2 this4)
  from fn [of "this1\<lparr>transactionDepth := transactionDepth this1 + 1\<rparr>"] committed(2)
  obtain e1 where "issued this2 = issued this1 @ e1" by auto
  with exec_from_Resolved [OF committed(1)] exec_from_Resolved [OF committed(3)] committed(4)
  show ?thesis by auto
qed

lemma exec_extends: "\<exists>ext. issued (snd (exec drv sql this)) = issued this @ ext"
  by (cases rule: exec_from_cases [of Caller drv sql this]) (simp_all add: exec_def)

lemma run_prog_extends:
  "\<exists>ext. issued (snd (run_prog drv p this)) = issued this @ ext"
proof (induction p arbitrary: this)
  case (Return v) show ?case by simp
next
  case (Throw v) show ?case by simp
next
  case (Exec sql k)
  obtain r this' where e: "exec drv sql this = (r, this')" by (cases "exec drv sql this")
  with exec_extends [of drv sql this] have "\<exists>ext. issued this' = issued this @ ext" by simp
  moreover from Exec [of "k r" this']
  have "\<exists>ext. issued (snd (run_prog drv (k r) this')) = issued this' @ ext" by blast
  ultimately show ?case using e by auto
next
  case (Nested m body k)
  obtain r this' where e: "transaction drv (run_prog drv body) m this = (r, this')"
    by (cases "transaction drv (run_prog drv body) m this")
  from transaction_extends [of "run_prog drv body" drv m this] Nested(1) e
  have "\<exists>ext. issued this' = issued this @ ext" by auto
  moreover from Nested(2) [of "k r" this']
  have "\<exists>ext. issued (snd (run_prog drv (k r) this')) = issued this' @ ext" by blast
  ultimately show ?case using e by auto
next
  case (Other f k)
  obtain r d where e: "f (raw_db this) = (r, d)" by (cases "f (raw_db this)")
  from Other [of "k r" "this\<lparr>raw_db := d\<rparr>"] e show ?case by auto
qed


lemma accepting_exec:
  "exec_from who accepting sql this =
     (Resolved Undefined, this\<lparr>issued := issued this @ [(who, sql, True, transactionDepth this)]\<rparr>)"
  by (simp add: exec_from_def accepting_def)


subsection \<open>The depth counter and the open frames\<close>

lemma open_frames_append: "open_frames (xs @ ys) = open_frames xs + open_frames ys"
  by (simp add: open_frames_def)

lemma open_frames_Nil: "open_frames [] = 0"
  by (simp add: open_frames_def)

lemma open_frames_single: "open_frames [e] = frame_change e"
  by (simp add: open_frames_def)

lemma in_step_from_append:
  "in_step_from n (xs @ ys) \<longleftrightarrow> in_step_from n xs \<and> in_step_from (n + open_frames xs) ys"
  by (induction xs arbitrary: n) (auto simp: open_frames_def add.assoc)

lemma manager_accepted_append:
  "manager_accepted (xs @ ys) \<longleftrightarrow> manager_accepted xs \<and> manager_accepted ys"
  by (simp add: manager_accepted_def)

lemma frame_change_opening: "frame_change (Manager, opening_sql m d, True, x) = 1"
  by (simp add: frame_change_def issue_origin_def issue_ok_def issue_sql_def opens_frame_def
      opening_sql_def strip_prefix_def)

lemma frame_change_closing: "frame_change (Manager, closing_sql d, True, x) = - 1"
  by (simp add: frame_change_def issue_origin_def issue_ok_def issue_sql_def opens_frame_def
      closes_frame_def closing_sql_def strip_prefix_def)

lemma frame_change_rollback: "frame_change (Manager, rollback_sql d, True, x) = - 1"
  by (simp add: frame_change_def issue_origin_def issue_ok_def issue_sql_def opens_frame_def
      closes_frame_def rollback_sql_def strip_prefix_def)

lemma frame_change_Caller: "frame_change (Caller, sql, ok, x) = 0"
  by (simp add: frame_change_def issue_origin_def)

lemma frame_change_failed: "frame_change (who, sql, False, x) = 0"
  by (simp add: frame_change_def issue_ok_def)

lemma tracks_snoc_Manager:
  assumes "tracks this"
    and "issued this' = issued this @ [(Manager, sql, True, x)]"
    and "transactionDepth this' = transactionDepth this + frame_change (Manager, sql, True, x)"
    and "0 \<le> transactionDepth this'"
  shows "tracks this'"
  using assms
  by (simp add: tracks_def open_frames_append open_frames_single in_step_from_append
      issue_origin_def)

lemma not_accepted_failed:
  "issued s = xs @ [(Manager, sql, False, x)] @ ys \<Longrightarrow> \<not> manager_accepted (issued s)"
  by (simp add: manager_accepted_def issue_origin_def issue_ok_def)

lemma transaction_tracks:
  fixes this :: "('d, 'v) base_database"
  assumes fn_ext: "\<And>s. \<exists>ext. issued (snd (fn s)) = issued s @ ext"
    and fn_tr: "\<And>s. tracks s \<Longrightarrow> manager_accepted (issued (snd (fn s))) \<Longrightarrow>
                 tracks (snd (fn s)) \<and> transactionDepth (snd (fn s)) = transactionDepth s"
    and tr: "tracks this"
    and acc: "manager_accepted (issued (snd (transaction drv fn m this)))"
  shows "tracks (snd (transaction drv fn m this)) \<and>
         transactionDepth (snd (transaction drv fn m this)) = transactionDepth this"
proof -
  let ?d = "transactionDepth this"
  let ?t = "transaction drv fn m this"
  have d0: "0 \<le> ?d" using tr by (simp add: tracks_def)
  text \<open>what the catch block does to a state that tracks with one frame too many\<close>
  have caught: "tracks (snd (catch_block drv ?d (frame_name ?d) err s)) \<and>
                transactionDepth (snd (catch_block drv ?d (frame_name ?d) err s)) = ?d"
    if s: "tracks s" "transactionDepth s = ?d + 1"
      and a: "manager_accepted (issued (snd (catch_block drv ?d (frame_name ?d) err s)))"
    for err s
  proof (cases rule: catch_block_cases [of s drv ?d err])
    case skipped
    with s d0 show ?thesis by simp
  next
    case (rolled_back s')
    from exec_from_Resolved [OF rolled_back(2)]
    have l: "issued s' = issued s @ [(Manager, rollback_sql ?d, True, transactionDepth s)]"
      and dd: "transactionDepth s' = transactionDepth s" by simp_all
    have "tracks (s'\<lparr>transactionDepth := ?d\<rparr>)"
      by (rule tracks_snoc_Manager [OF s(1), where sql="rollback_sql ?d" and x="transactionDepth s"])
         (use l s(2) d0 in \<open>simp_all add: frame_change_rollback\<close>)
    with rolled_back(3) show ?thesis by simp
  next
    case (rollback_failed err2 s')
    from exec_from_Rejected [OF rollback_failed(2)]
    have "issued s' = issued s @ [(Manager, rollback_sql ?d, False, transactionDepth s)] @ []" by simp
    from not_accepted_failed [OF this] a rollback_failed(3) show ?thesis by simp
  qed
  show ?thesis
  proof (cases rule: transaction_cases [where drv=drv and m=m and this=this and fn=fn])
    case (open_failed err this1)
    from catch_block_extends [of drv ?d err this1] open_failed(2)
    obtain ext where "issued (snd ?t) = issued this1 @ ext" by auto
    with exec_from_Rejected [OF open_failed(1)]
    have "issued (snd ?t) = issued this @ [(Manager, opening_sql m ?d, False, ?d)] @ ext" by simp
    from not_accepted_failed [OF this] acc show ?thesis by simp
  next
    case (body_failed this1 err this2)
    let ?s1 = "this1\<lparr>transactionDepth := transactionDepth this1 + 1\<rparr>"
    from exec_from_Resolved [OF body_failed(1)]
    have l1: "issued this1 = issued this @ [(Manager, opening_sql m ?d, True, ?d)]"
      and d1: "transactionDepth this1 = ?d" by simp_all
    have t1: "tracks ?s1"
      by (rule tracks_snoc_Manager [OF tr, where sql="opening_sql m ?d" and x="?d"])
         (use l1 d1 d0 in \<open>simp_all add: frame_change_opening\<close>)
    from catch_block_extends [of drv ?d err this2] body_failed(3)
    obtain ext where "issued (snd ?t) = issued this2 @ ext" by auto
    with acc have a2: "manager_accepted (issued this2)" by (simp add: manager_accepted_append)
    from fn_tr [OF t1] body_failed(2) a2 d1
    have t2: "tracks this2" "transactionDepth this2 = ?d + 1" by simp_all
    from caught [OF t2, of err] acc body_failed(3) show ?thesis by simp
  next
    case (close_failed this1 result this2 err this4)
    from catch_block_extends [of drv ?d err this4] close_failed(4)
    obtain ext where "issued (snd ?t) = issued this4 @ ext" by auto
    with exec_from_Rejected [OF close_failed(3)]
    have "issued (snd ?t) = issued this2 @ [(Manager, closing_sql ?d, False, transactionDepth this2 - 1)] @ ext"
      by simp
    from not_accepted_failed [OF this] acc show ?thesis by simp
  next
    case (committed this1 result this2 this4)
    let ?s1 = "this1\<lparr>transactionDepth := transactionDepth this1 + 1\<rparr>"
    from exec_from_Resolved [OF committed(1)]
    have l1: "issued this1 = issued this @ [(Manager, opening_sql m ?d, True, ?d)]"
      and d1: "transactionDepth this1 = ?d" by simp_all
    have t1: "tracks ?s1"
      by (rule tracks_snoc_Manager [OF tr, where sql="opening_sql m ?d" and x="?d"])
         (use l1 d1 d0 in \<open>simp_all add: frame_change_opening\<close>)
    from exec_from_Resolved [OF committed(3)]
    have l4: "issued this4 = issued this2 @ [(Manager, closing_sql ?d, True, transactionDepth this2 - 1)]"
      and d4: "transactionDepth this4 = transactionDepth this2 - 1" by simp_all
    from acc committed(4) l4 have a2: "manager_accepted (issued this2)"
      by (simp add: manager_accepted_append)
    from fn_tr [OF t1] committed(2) a2 d1
    have t2: "tracks this2" "transactionDepth this2 = ?d + 1" by simp_all
    have "tracks this4"
      by (rule tracks_snoc_Manager [OF t2(1), where sql="closing_sql ?d" and x="transactionDepth this2 - 1"])
         (use l4 d4 t2(2) d0 in \<open>simp_all add: frame_change_closing\<close>)
    with d4 t2(2) committed(4) show ?thesis by simp
  qed
qed

lemma run_prog_tracks:
  "tracks this \<Longrightarrow> manager_accepted (issued (snd (run_prog drv p this))) \<Longrightarrow>
     tracks (snd (run_prog drv p this)) \<and>
     transactionDepth (snd (run_prog drv p this)) = transactionDepth this"
proof (induction p arbitrary: this)
  case (Return v) then show ?case by simp
next
  case (Throw v) then show ?case by simp
next
  case (Exec sql k)
  obtain r this' where e: "exec drv sql this = (r, this')" by (cases "exec drv sql this")
  have l: "\<exists>ok. issued this' = issued this @ [(Caller, sql, ok, transactionDepth this)]"
    and d: "transactionDepth this' = transactionDepth this"
    using e by (cases rule: exec_from_cases [of Caller drv sql this]; auto simp: exec_def)+
  from l d Exec.prems(1) have t: "tracks this'"
    by (auto simp: tracks_def open_frames_append open_frames_single in_step_from_append
        frame_change_Caller issue_origin_def issue_depth_def)
  from Exec.IH [of "k r" this', OF _ t] Exec.prems(2) e d show ?case by simp
next
  case (Nested m body k)
  obtain r this' where e: "transaction drv (run_prog drv body) m this = (r, this')"
    by (cases "transaction drv (run_prog drv body) m this")
  from run_prog_extends [of drv "k r" this'] Nested.prems(2) e
  have a: "manager_accepted (issued this')" by (auto simp: manager_accepted_append)
  have "tracks (snd (transaction drv (run_prog drv body) m this)) \<and>
        transactionDepth (snd (transaction drv (run_prog drv body) m this)) = transactionDepth this"
  proof (rule transaction_tracks [OF _ _ Nested.prems(1)])
    show "\<exists>ext. issued (snd (run_prog drv body s)) = issued s @ ext" for s
      by (rule run_prog_extends)
    show "tracks (snd (run_prog drv body s)) \<and>
          transactionDepth (snd (run_prog drv body s)) = transactionDepth s"
      if "tracks s" "manager_accepted (issued (snd (run_prog drv body s)))" for s
      using that by (rule Nested.IH(1))
    show "manager_accepted (issued (snd (transaction drv (run_prog drv body) m this)))"
      using a e by simp
  qed
  with e have t: "tracks this'" and d: "transactionDepth this' = transactionDepth this" by simp_all
  from Nested.IH(2) [of "k r" this', OF _ t] Nested.prems(2) e d show ?case by simp
next
  case (Other f k)
  obtain r d where e: "f (raw_db this) = (r, d)" by (cases "f (raw_db this)")
  from Other.prems(1) have t: "tracks (this\<lparr>raw_db := d\<rparr>)" by (simp add: tracks_def)
  from Other.IH [of "k r" "this\<lparr>raw_db := d\<rparr>", OF _ t] Other.prems(2) e show ?case by simp
qed

lemma depth_floor_snoc:
  "depth_floor lb s \<Longrightarrow> issued s' = issued s @ [(who, sql, ok, x)] \<Longrightarrow> lb \<le> x \<Longrightarrow>
     lb \<le> transactionDepth s' \<Longrightarrow> depth_floor lb s'"
  by (simp add: depth_floor_def issue_depth_def)

lemma depth_floor_depth:
  "depth_floor lb s \<Longrightarrow> lb \<le> n \<Longrightarrow> depth_floor lb (s\<lparr>transactionDepth := n\<rparr>)"
  by (simp add: depth_floor_def)

lemma catch_block_floor:
  assumes "d \<le> transactionDepth s"
  shows "d \<le> transactionDepth (snd (catch_block drv d (frame_name d) err s))"
    and "depth_floor lb s \<Longrightarrow> lb \<le> d \<Longrightarrow>
           depth_floor lb (snd (catch_block drv d (frame_name d) err s))"
proof -
  show "d \<le> transactionDepth (snd (catch_block drv d (frame_name d) err s))"
  proof (cases rule: catch_block_cases [of s drv d err])
    case skipped then show ?thesis by simp
  next
    case (rolled_back s') then show ?thesis by simp
  next
    case (rollback_failed err2 s')
    with exec_from_Rejected [OF rollback_failed(2)] assms show ?thesis by simp
  qed
  show "depth_floor lb (snd (catch_block drv d (frame_name d) err s))"
    if fl: "depth_floor lb s" and lb: "lb \<le> d"
  proof (cases rule: catch_block_cases [of s drv d err])
    case skipped
    with fl lb show ?thesis by (simp add: depth_floor_depth)
  next
    case (rolled_back s')
    from exec_from_Resolved [OF rolled_back(2)] fl
    have "depth_floor lb s'" by (auto simp: depth_floor_def issue_depth_def)
    with rolled_back(3) lb show ?thesis by (simp add: depth_floor_depth)
  next
    case (rollback_failed err2 s')
    from exec_from_Rejected [OF rollback_failed(2)] fl
    have "depth_floor lb s'" by (auto simp: depth_floor_def issue_depth_def)
    with rollback_failed(3) show ?thesis by simp
  qed
qed

lemma transaction_floor:
  fixes this :: "('d, 'v) base_database"
  assumes fn_mono: "\<And>s. transactionDepth s \<le> transactionDepth (snd (fn s))"
    and fn_fl: "\<And>s. depth_floor lb s \<Longrightarrow> depth_floor lb (snd (fn s))"
  shows "transactionDepth this \<le> transactionDepth (snd (transaction drv fn m this))"
    and "depth_floor lb this \<Longrightarrow> depth_floor lb (snd (transaction drv fn m this))"
proof -
  let ?d = "transactionDepth this"
  let ?t = "transaction drv fn m this"
  have both: "?d \<le> transactionDepth (snd ?t) \<and> (depth_floor lb this \<longrightarrow> depth_floor lb (snd ?t))"
  proof (cases rule: transaction_cases [where drv=drv and m=m and this=this and fn=fn])
    case (open_failed err this1)
    from exec_from_Rejected [OF open_failed(1)]
    have l1: "issued this1 = issued this @ [(Manager, opening_sql m ?d, False, ?d)]"
      and d1: "transactionDepth this1 = ?d" by simp_all
    have "depth_floor lb this1" if "depth_floor lb this"
      using that l1 d1 by (auto simp: depth_floor_def issue_depth_def)
    with catch_block_floor(1) [where d="?d" and s=this1 and drv=drv and err=err] catch_block_floor(2) [where d="?d" and s=this1 and drv=drv and err=err and lb=lb] d1 open_failed(2) show ?thesis
      by (auto simp: depth_floor_def)
  next
    case (body_failed this1 err this2)
    let ?s1 = "this1\<lparr>transactionDepth := transactionDepth this1 + 1\<rparr>"
    from exec_from_Resolved [OF body_failed(1)]
    have l1: "issued this1 = issued this @ [(Manager, opening_sql m ?d, True, ?d)]"
      and d1: "transactionDepth this1 = ?d" by simp_all
    from fn_mono [of ?s1] body_failed(2) d1 have d2: "?d \<le> transactionDepth this2" by simp
    have "depth_floor lb this2" if fl: "depth_floor lb this"
    proof -
      from fl l1 d1 have "depth_floor lb ?s1"
        by (auto simp: depth_floor_def issue_depth_def)
      from fn_fl [OF this] body_failed(2) show ?thesis by simp
    qed
    with catch_block_floor(1) [where d="?d" and s=this2 and drv=drv and err=err] catch_block_floor(2) [where d="?d" and s=this2 and drv=drv and err=err and lb=lb] d2 body_failed(3) show ?thesis
      by (auto simp: depth_floor_def)
  next
    case (close_failed this1 result this2 err this4)
    let ?s1 = "this1\<lparr>transactionDepth := transactionDepth this1 + 1\<rparr>"
    from exec_from_Resolved [OF close_failed(1)]
    have l1: "issued this1 = issued this @ [(Manager, opening_sql m ?d, True, ?d)]"
      and d1: "transactionDepth this1 = ?d" by simp_all
    from fn_mono [of ?s1] close_failed(2) d1 have d2: "?d + 1 \<le> transactionDepth this2" by simp
    from exec_from_Rejected [OF close_failed(3)]
    have l4: "issued this4 = issued this2 @ [(Manager, closing_sql ?d, False, transactionDepth this2 - 1)]"
      and d4: "transactionDepth this4 = transactionDepth this2 - 1" by simp_all
    have "depth_floor lb this4" if fl: "depth_floor lb this"
    proof -
      from fl l1 d1 have "depth_floor lb ?s1"
        by (auto simp: depth_floor_def issue_depth_def)
      from fn_fl [OF this] close_failed(2) have f2: "depth_floor lb this2" by simp
      from fl have "lb \<le> ?d" by (simp add: depth_floor_def)
      with l4 d4 d2 show ?thesis by (auto intro!: depth_floor_snoc [OF f2])
    qed
    with catch_block_floor(1) [where d="?d" and s=this4 and drv=drv and err=err] catch_block_floor(2) [where d="?d" and s=this4 and drv=drv and err=err and lb=lb] d2 d4 close_failed(4) show ?thesis
      by (auto simp: depth_floor_def)
  next
    case (committed this1 result this2 this4)
    let ?s1 = "this1\<lparr>transactionDepth := transactionDepth this1 + 1\<rparr>"
    from exec_from_Resolved [OF committed(1)]
    have l1: "issued this1 = issued this @ [(Manager, opening_sql m ?d, True, ?d)]"
      and d1: "transactionDepth this1 = ?d" by simp_all
    from fn_mono [of ?s1] committed(2) d1 have d2: "?d + 1 \<le> transactionDepth this2" by simp
    from exec_from_Resolved [OF committed(3)]
    have l4: "issued this4 = issued this2 @ [(Manager, closing_sql ?d, True, transactionDepth this2 - 1)]"
      and d4: "transactionDepth this4 = transactionDepth this2 - 1" by simp_all
    have "depth_floor lb this4" if fl: "depth_floor lb this"
    proof -
      from fl l1 d1 have "depth_floor lb ?s1"
        by (auto simp: depth_floor_def issue_depth_def)
      from fn_fl [OF this] committed(2) have f2: "depth_floor lb this2" by simp
      from fl have "lb \<le> ?d" by (simp add: depth_floor_def)
      with l4 d4 d2 show ?thesis by (auto intro!: depth_floor_snoc [OF f2])
    qed
    with d2 d4 committed(4) show ?thesis by simp
  qed
  from both show "?d \<le> transactionDepth (snd ?t)" by simp
  from both show "depth_floor lb this \<Longrightarrow> depth_floor lb (snd ?t)" by simp
qed

lemma run_prog_floor:
  "transactionDepth this \<le> transactionDepth (snd (run_prog drv p this)) \<and>
   (depth_floor lb this \<longrightarrow> depth_floor lb (snd (run_prog drv p this)))"
proof (induction p arbitrary: this)
  case (Return v) show ?case by simp
next
  case (Throw v) show ?case by simp
next
  case (Exec sql k)
  obtain r this' where e: "exec drv sql this = (r, this')" by (cases "exec drv sql this")
  have l: "\<exists>ok. issued this' = issued this @ [(Caller, sql, ok, transactionDepth this)]"
    and d: "transactionDepth this' = transactionDepth this"
    using e by (cases rule: exec_from_cases [of Caller drv sql this]; auto simp: exec_def)+
  from l d have "depth_floor lb this'" if "depth_floor lb this"
    using that by (auto simp: depth_floor_def issue_depth_def)
  with Exec [of "k r" this'] e d show ?case by auto
next
  case (Nested m body k)
  obtain r this' where e: "transaction drv (run_prog drv body) m this = (r, this')"
    by (cases "transaction drv (run_prog drv body) m this")
  from transaction_floor(1) [where fn="run_prog drv body" and lb=lb and this=this and drv=drv and m=m] transaction_floor(2) [where fn="run_prog drv body" and lb=lb and this=this and drv=drv and m=m] Nested(1) e
  have "transactionDepth this \<le> transactionDepth this'"
    and "depth_floor lb this \<Longrightarrow> depth_floor lb this'" by auto
  with Nested(2) [of "k r" this'] e show ?case by fastforce
next
  case (Other f k)
  obtain r d where e: "f (raw_db this) = (r, d)" by (cases "f (raw_db this)")
  have "depth_floor lb (this\<lparr>raw_db := d\<rparr>)" if "depth_floor lb this"
    using that by (simp add: depth_floor_def)
  with Other [of "k r" "this\<lparr>raw_db := d\<rparr>"] e show ?case by auto
qed

lemma transaction_body_failure:
  assumes "exec_from Manager drv (opening_sql m (transactionDepth this)) this = (Resolved Undefined, this1)"
    and "fn (this1\<lparr>transactionDepth := transactionDepth this1 + 1\<rparr>) = (Rejected v, this2)"
    and "exec_from Manager drv (rollback_sql (transactionDepth this)) this2 = (Resolved Undefined, this3)"
    and "0 < transactionDepth this2"
  shows "transaction drv fn m this = (Rejected v, this3\<lparr>transactionDepth := transactionDepth this\<rparr>)"
proof (cases rule: transaction_cases [where drv=drv and m=m and this=this and fn=fn])
  case (body_failed s1 err s2)
  with assms have eq: "s1 = this1" "err = v" "s2 = this2" by simp_all
  show ?thesis
  proof (cases rule: catch_block_cases [of this2 drv "transactionDepth this" v])
    case (rolled_back s3)
    with assms(3) body_failed(3) eq show ?thesis by simp
  qed (use assms in simp_all)
qed (use assms in simp_all)

lemma tracks_new: "tracks (new_base_database d)"
  by (simp add: tracks_def new_base_database_def open_frames_def)

lemma depth_floor_new: "depth_floor 0 (new_base_database d)"
  by (simp add: depth_floor_def new_base_database_def)

text \<open>
  Claim C5, as amended.  Take any run of caller code on a fresh instance: transaction
  attempts in sequence, nested in each other, with bodies that fail or succeed, each call
  awaited.  The depth counter is never negative, neither at the end nor at any statement
  issued.  If the driver accepted every statement that \<open>transaction\<close> issued, then at every
  statement issued by caller code the counter equals the number of frames opened and not
  yet closed, and at the end it equals that number again, which is 0.
\<close>

theorem depth_tracks_open_frames:
  fixes drv :: "('d, 'v) driver"
  shows "0 \<le> transactionDepth (snd (run_prog drv p (new_base_database d)))
       \<and> list_all (\<lambda>e. 0 \<le> issue_depth e) (issued (snd (run_prog drv p (new_base_database d))))
       \<and> (manager_accepted (issued (snd (run_prog drv p (new_base_database d)))) \<longrightarrow>
            transactionDepth (snd (run_prog drv p (new_base_database d))) = 0
          \<and> open_frames (issued (snd (run_prog drv p (new_base_database d)))) = 0
          \<and> in_step_from 0 (issued (snd (run_prog drv p (new_base_database d)))))"
proof -
  let ?final = "snd (run_prog drv p (new_base_database d))"
  from run_prog_floor [of "new_base_database d" drv p 0] depth_floor_new [of d]
  have "depth_floor 0 ?final" by simp
  then have a: "0 \<le> transactionDepth ?final" "list_all (\<lambda>e. 0 \<le> issue_depth e) (issued ?final)"
    by (simp_all add: depth_floor_def)
  have b: "transactionDepth ?final = 0 \<and> open_frames (issued ?final) = 0 \<and> in_step_from 0 (issued ?final)"
    if "manager_accepted (issued ?final)"
    using run_prog_tracks [OF tracks_new that]
    by (simp add: tracks_def new_base_database_def)
  from a b show ?thesis by blast
qed

lemma frames_exec_simps:
  "frames_exec ''BEGIN '' [] = (None, [''''])"
  "frames_exec ''COMMIT'' (x # xs) = (None, [])"
  "frames_exec ''ROLLBACK'' (x # xs) = (None, [])"
  "frames_exec ''ROLLBACK'' [] = (Some (Error ''cannot rollback - no transaction is active''), [])"
  by (simp_all add: frames_exec_def strip_prefix_def)


theorem depth_tracks_open_frames_witness:
  "manager_accepted (issued (snd (run_prog accepting
       (Nested Plain (Exec ''INSERT 1'' (or_throw
          (Nested IMMEDIATE (Throw (V ''dup'')) (\<lambda>_. Exec ''INSERT 2'' (or_throw (Return Undefined))))))
        (\<lambda>r. Return Undefined)) (new_base_database ()))))
   \<and> transactionDepth (snd (run_prog accepting
       (Nested Plain (Exec ''INSERT 1'' (or_throw
          (Nested IMMEDIATE (Throw (V ''dup'')) (\<lambda>_. Exec ''INSERT 2'' (or_throw (Return Undefined))))))
        (\<lambda>r. Return Undefined)) (new_base_database ()))) = 0
   \<and> open_frames (issued (snd (run_prog accepting
       (Nested Plain (Exec ''INSERT 1'' (or_throw
          (Nested IMMEDIATE (Throw (V ''dup'')) (\<lambda>_. Exec ''INSERT 2'' (or_throw (Return Undefined))))))
        (\<lambda>r. Return Undefined)) (new_base_database ())))) = 0"
proof -
  let ?p = "Nested Plain (Exec ''INSERT 1'' (or_throw
          (Nested IMMEDIATE (Throw (V ''dup'')) (\<lambda>_. Exec ''INSERT 2'' (or_throw (Return Undefined))))))
        (\<lambda>r. Return Undefined) :: (unit, string) prog"
  have log: "issued (snd (run_prog accepting ?p (new_base_database ()))) =
     [(Manager, opening_sql Plain 0, True, 0), (Caller, ''INSERT 1'', True, 1),
      (Manager, opening_sql IMMEDIATE 1, True, 1), (Manager, rollback_sql 1, True, 2),
      (Caller, ''INSERT 2'', True, 1), (Manager, closing_sql 0, True, 0)]"
    by (simp add: transaction_def catch_block_def exec_def accepting_exec or_throw_def
        new_base_database_def opening_sql_def closing_sql_def rollback_sql_def frame_name_def Let_def)
  have acc: "manager_accepted (issued (snd (run_prog accepting ?p (new_base_database ()))))"
    unfolding log by (simp add: manager_accepted_def issue_ok_def)
  from acc depth_tracks_open_frames [of accepting ?p "()"] show ?thesis by blast
qed

text \<open>
  Claim C5 as stated fails at the simplest attempt, an empty body on a driver that accepts
  everything: \<open>COMMIT\<close> is issued when the counter is already back at 0, while the history
  before it holds one open frame.
\<close>

theorem depth_lags_at_commit:
  "issued (snd (transaction accepting (run_prog accepting (Return Undefined)) Plain (new_base_database ())))
     = [(Manager, ''BEGIN '', True, 0), (Manager, ''COMMIT'', True, 0)]
   \<and> issue_depth (Manager, ''COMMIT'', True, 0) = 0
   \<and> open_frames [(Manager, ''BEGIN '', True, 0)] = 1"
  by (simp add: transaction_def accepting_exec new_base_database_def Let_def issue_depth_def
      open_frames_def frame_change_def issue_origin_def issue_ok_def issue_sql_def opens_frame_def
      strip_prefix_def)

text \<open>
  Claim C2.  A body that fails with \<open>v\<close> should make the attempt roll back, reset the depth
  to the captured one and reject with \<open>v\<close> itself.  The code does so when the driver accepts
  the rollback statement (\<open>transaction_body_failure\<close>).  When the driver rejects it, the
  rejection of the rollback leaves the \<open>catch\<close> block: here the body has ended the
  transaction itself and throws the string; the attempt rejects with the driver's error
  instead, and the depth stays at 1.
\<close>

theorem rollback_failure_replaces_error:
  "transaction frames
     (run_prog frames (Exec ''ROLLBACK'' (or_throw (Throw (V ''a string error'')))))
     Plain (new_base_database [])
   = (Rejected (Error ''cannot rollback - no transaction is active''),
      \<lparr>raw_db = [], transactionDepth = 1, isClosed = False,
       issued = [(Manager, ''BEGIN '', True, 0), (Caller, ''ROLLBACK'', True, 1),
                 (Manager, ''ROLLBACK'', False, 1)]\<rparr>)"
  by (simp add: transaction_def catch_block_def exec_def exec_from_def frames_def frames_exec_simps
      or_throw_def new_base_database_def Let_def)

subsection \<open>Closing, and the handle of a body\<close>

lemma catch_block_keeps_isClosed:
  "isClosed (snd (catch_block drv depth (frame_name depth) err this)) = isClosed this"
proof (cases rule: catch_block_cases [of this drv depth err])
  case skipped
  then show ?thesis by simp
next
  case (rolled_back this')
  from exec_from_Resolved [OF rolled_back(2)] rolled_back(3) show ?thesis by simp
next
  case (rollback_failed err2 this')
  from exec_from_Rejected [OF rollback_failed(2)] rollback_failed(3) show ?thesis by simp
qed

text \<open>
  \<open>fn(this, ...args)\<close>: once the opening statement is accepted, the body runs on the
  instance itself, and what it leaves is what the rest of the attempt starts from.
\<close>

lemma transaction_runs_body_on_instance:
  fixes this :: "('d, 'v) base_database"
  assumes opened: "exec_from Manager drv (opening_sql m (transactionDepth this)) this
                     = (Resolved v, this1)"
  shows "\<exists>ext. issued (snd (transaction drv fn m this))
           = issued (snd (fn (this1\<lparr>transactionDepth := transactionDepth this + 1\<rparr>))) @ ext"
    and "isClosed (snd (transaction drv fn m this))
           = isClosed (snd (fn (this1\<lparr>transactionDepth := transactionDepth this + 1\<rparr>)))"
proof -
  let ?d = "transactionDepth this"
  let ?handle = "this1\<lparr>transactionDepth := transactionDepth this + 1\<rparr>"
  from exec_from_Resolved [OF opened] have d1: "transactionDepth this1 = ?d" by simp
  have "(\<exists>ext. issued (snd (transaction drv fn m this)) = issued (snd (fn ?handle)) @ ext)
      \<and> isClosed (snd (transaction drv fn m this)) = isClosed (snd (fn ?handle))"
  proof (cases rule: transaction_cases [where drv=drv and m=m and this=this and fn=fn])
    case (open_failed err t1)
    with opened show ?thesis by simp
  next
    case (body_failed t1 err t2)
    from body_failed(1) opened have t1: "t1 = this1" by simp
    from body_failed(2) have b: "fn ?handle = (Rejected err, t2)" by (simp add: t1 d1)
    from catch_block_extends [of drv ?d err t2] catch_block_keeps_isClosed [of drv ?d err t2]
      body_failed(3) b
    show ?thesis by simp
  next
    case (close_failed t1 result t2 err t4)
    from close_failed(1) opened have t1: "t1 = this1" by simp
    from close_failed(2) have b: "fn ?handle = (Resolved result, t2)" by (simp add: t1 d1)
    from exec_from_Rejected [OF close_failed(3)]
    have "issued t4 = issued t2 @ [(Manager, closing_sql ?d, False, transactionDepth t2 - 1)]"
      and "isClosed t4 = isClosed t2" by simp_all
    with catch_block_extends [of drv ?d err t4] catch_block_keeps_isClosed [of drv ?d err t4]
      close_failed(4) b
    show ?thesis by auto
  next
    case (committed t1 result t2 t4)
    from committed(1) opened have t1: "t1 = this1" by simp
    from committed(2) have b: "fn ?handle = (Resolved result, t2)" by (simp add: t1 d1)
    from exec_from_Resolved [OF committed(3)]
    have "issued t4 = issued t2 @ [(Manager, closing_sql ?d, True, transactionDepth t2 - 1)]"
      and "isClosed t4 = isClosed t2" by simp_all
    with committed(4) b show ?thesis by simp
  qed
  then show "\<exists>ext. issued (snd (transaction drv fn m this)) = issued (snd (fn ?handle)) @ ext"
    and "isClosed (snd (transaction drv fn m this)) = isClosed (snd (fn ?handle))"
    by blast+
qed

text \<open>
  Claim C9, as amended.  The declared type of the handle, \<open>ITransaction\<close>, has every member
  of \<open>IDatabase\<close> except \<open>backup\<close>, \<open>serialize\<close>, \<open>close\<close>, \<open>begin\<close>, \<open>commit\<close> and
  \<open>rollback\<close>, and it has \<open>transaction\<close>.  That restricts what type-checks, not what
  the handle is: the attempt passes the instance itself, with the depth already raised,
  to the body.  Whatever the body does to it, by any method of the instance, the six
  omitted ones included, is done to the connection: the statements it issued stay in the
  history that the attempt leaves, and the attempt leaves the instance closed exactly
  when the body did.
\<close>

theorem transaction_handle_is_the_instance:
  fixes this :: "('d, 'v) base_database"
  shows "set ITransaction
           = set IDatabase - {''backup'', ''serialize'', ''close'', ''begin'', ''commit'', ''rollback''}
   \<and> ''transaction'' \<in> set ITransaction
   \<and> (exec_from Manager drv (opening_sql m (transactionDepth this)) this = (Resolved v, this1) \<longrightarrow>
        (\<exists>ext. issued (snd (transaction drv fn m this))
           = issued (snd (fn (this1\<lparr>transactionDepth := transactionDepth this + 1\<rparr>))) @ ext)
      \<and> isClosed (snd (transaction drv fn m this))
           = isClosed (snd (fn (this1\<lparr>transactionDepth := transactionDepth this + 1\<rparr>)))
      \<and> isClosed (snd (transaction drv (db_method drv c) m this))
           = isClosed (snd (db_method drv c
                (this1\<lparr>transactionDepth := transactionDepth this + 1\<rparr>))))"
proof -
  have "set ITransaction
      = set IDatabase - {''backup'', ''serialize'', ''close'', ''begin'', ''commit'', ''rollback''}"
    by (auto simp: ITransaction_def Omit_def IDatabase_def)
  moreover have "''transaction'' \<in> set ITransaction"
    by (simp add: ITransaction_def Omit_def IDatabase_def)
  moreover have "(\<exists>ext. issued (snd (transaction drv fn m this))
           = issued (snd (fn (this1\<lparr>transactionDepth := transactionDepth this + 1\<rparr>))) @ ext)
      \<and> isClosed (snd (transaction drv fn m this))
           = isClosed (snd (fn (this1\<lparr>transactionDepth := transactionDepth this + 1\<rparr>)))
      \<and> isClosed (snd (transaction drv (db_method drv c) m this))
           = isClosed (snd (db_method drv c
                (this1\<lparr>transactionDepth := transactionDepth this + 1\<rparr>)))"
    if "exec_from Manager drv (opening_sql m (transactionDepth this)) this = (Resolved v, this1)"
    using transaction_runs_body_on_instance [OF that] by blast
  ultimately show ?thesis by blast
qed

theorem transaction_handle_is_the_instance_witness:
  "exec_from Manager (accepting :: (unit, nat) driver)
      (opening_sql Plain (transactionDepth (new_base_database () :: (unit, nat) base_database)))
      (new_base_database ())
     = (Resolved Undefined,
        \<lparr>raw_db = (), transactionDepth = 0, isClosed = False,
         issued = [(Manager, ''BEGIN '', True, 0)]\<rparr>)
   \<and> (\<exists>ext. issued (snd (transaction (accepting :: (unit, nat) driver)
          (db_method accepting (CallExec ''COMMIT'')) Plain (new_base_database ())))
        = [(Manager, ''BEGIN '', True, 0), (Caller, ''COMMIT'', True, 1)] @ ext)
   \<and> \<not> isClosed (snd (transaction (accepting :: (unit, nat) driver)
          (db_method accepting (CallExec ''COMMIT'')) Plain (new_base_database ())))
   \<and> isClosed (snd (transaction (accepting :: (unit, nat) driver)
          (db_method accepting CallClose) Plain (new_base_database ())))"
  using transaction_handle_is_the_instance
    [where this = "new_base_database () :: (unit, nat) base_database"
       and drv = accepting and m = Plain and v = Undefined
       and ?this1.0 = "\<lparr>raw_db = (), transactionDepth = 0, isClosed = False,
                         issued = [(Manager, ''BEGIN '', True, 0)]\<rparr>"
       and fn = "db_method accepting (CallExec ''COMMIT'')" and c = CallClose]
  by (auto simp: exec_def exec_from_def accepting_def opening_sql_def new_base_database_def
        close_def)

text \<open>
  Claim C9 as stated fails.  On a driver whose handle can be closed, the body
  \<open>(tx) => tx.close()\<close>, written against the instance rather than the declared type, closes
  the connection in the middle of the attempt: the driver then refuses \<open>COMMIT\<close>.
\<close>

theorem handle_closes_the_connection:
  "transaction (closable :: (bool, nat) driver) (db_method closable CallClose) Plain
      (new_base_database True)
     = (Rejected (Error ''database is not open''),
        \<lparr>raw_db = False, transactionDepth = 0, isClosed = True,
         issued = [(Manager, ''BEGIN '', True, 0), (Manager, ''COMMIT'', False, 0)]\<rparr>)"
  by (simp add: transaction_def catch_block_def exec_from_def close_def closable_def
      new_base_database_def Let_def)

section \<open>Properties of the session queue\<close>

subsection \<open>Running the jobs of one operation\<close>

lemma run_task_drains:
  fixes s :: "('e, 'v) session"
  assumes "state (cells s r) = Pending"
  shows "\<exists>n. drain n (s\<lparr>jobs := [RunTask t r]\<rparr>) =
     s\<lparr>cells := (cells s)(r := (cells s r)\<lparr>state := Settled (fst (run_task t (engine s))), reactions := []\<rparr>),
       jobs := fire (fst (run_task t (engine s))) (reactions (cells s r)),
       engine := snd (run_task t (engine s)),
       trace := trace s @ task_events r t (engine s)\<rparr>"
  using assms
proof (induction t arbitrary: s)
  case (Finish out)
  have "drain (Suc 0) (s\<lparr>jobs := [RunTask (Finish out) r]\<rparr>) =
     s\<lparr>cells := (cells s)(r := (cells s r)\<lparr>state := Settled (fst (run_task (Finish out) (engine s))), reactions := []\<rparr>),
       jobs := fire (fst (run_task (Finish out) (engine s))) (reactions (cells s r)),
       engine := snd (run_task (Finish out) (engine s)),
       trace := trace s @ task_events r (Finish out) (engine s)\<rparr>"
    using Finish by (simp add: tick_def advance_def settle_def fire_def)
  then show ?case by (rule exI)
next
  case (Segment upd k)
  let ?s' = "s\<lparr>engine := upd (engine s), trace := trace s @ [Step r]\<rparr>"
  have "state (cells ?s' r) = Pending" using Segment.prems by simp
  from Segment.IH [of "k (engine s)" ?s', OF rangeI this]
  obtain n where n: "drain n (?s'\<lparr>jobs := [RunTask (k (engine s)) r]\<rparr>) =
     ?s'\<lparr>cells := (cells ?s')(r := (cells ?s' r)\<lparr>state := Settled (fst (run_task (k (engine s)) (engine ?s'))), reactions := []\<rparr>),
       jobs := fire (fst (run_task (k (engine s)) (engine ?s'))) (reactions (cells ?s' r)),
       engine := snd (run_task (k (engine s)) (engine ?s')),
       trace := trace ?s' @ task_events r (k (engine s)) (engine ?s')\<rparr>" by blast
  have "tick (s\<lparr>jobs := [RunTask (Segment upd k) r]\<rparr>) = ?s'\<lparr>jobs := [RunTask (k (engine s)) r]\<rparr>"
    by (simp add: tick_def advance_def)
  then have "drain (Suc n) (s\<lparr>jobs := [RunTask (Segment upd k) r]\<rparr>) =
     s\<lparr>cells := (cells s)(r := (cells s r)\<lparr>state := Settled (fst (run_task (Segment upd k) (engine s))), reactions := []\<rparr>),
       jobs := fire (fst (run_task (Segment upd k) (engine s))) (reactions (cells s r)),
       engine := snd (run_task (Segment upd k) (engine s)),
       trace := trace s @ task_events r (Segment upd k) (engine s)\<rparr>"
    using n by simp
  then show ?case by (rule exI)
qed

lemma follow_append:
  "follow (ops @ [t]) i =
     (if i = length ops then [(CallOperation t, Result (Suc i)), (AwaitResult (Result (Suc i)), Queue (Suc i))]
      else follow ops i)"
  by (auto simp: follow_def nth_append)

lemma outcome_of_append: "i < length ops \<Longrightarrow> outcome_of (ops @ later) e i = outcome_of ops e i"
  by (simp add: outcome_of_def nth_append)

lemma enqueue_waiting: "snd (enqueue t (waiting ops e)) = waiting (ops @ [t]) e"
proof -
  have c: "cells (snd (enqueue t (waiting ops e))) = cells (waiting (ops @ [t]) e)"
  proof
    fix p
    show "cells (snd (enqueue t (waiting ops e))) p = cells (waiting (ops @ [t]) e) p"
      by (cases p)
         (auto simp: enqueue_def Let_def promise_then_def waiting_def boundary_cells_def
            fresh_promise_def follow_append outcome_of_append follow_def nth_append)
  qed
  have rest: "jobs (snd (enqueue t (waiting ops e))) = jobs (waiting (ops @ [t]) e)"
    "queue (snd (enqueue t (waiting ops e))) = queue (waiting (ops @ [t]) e)"
    "submitted (snd (enqueue t (waiting ops e))) = submitted (waiting (ops @ [t]) e)"
    "engine (snd (enqueue t (waiting ops e))) = engine (waiting (ops @ [t]) e)"
    "trace (snd (enqueue t (waiting ops e))) = trace (waiting (ops @ [t]) e)"
    by (auto simp: enqueue_def Let_def promise_then_def waiting_def boundary_cells_def
            fresh_promise_def follow_def)
  from c rest show ?thesis by (simp add: session.equality)
qed

lemma submit_all_snoc: "submit_all (ops @ [t]) s = snd (enqueue t (submit_all ops s))"
  by (simp add: submit_all_def)

lemma waiting_Nil: "waiting [] e = new_Database e"
proof -
  have "cells (waiting [] e) = cells (new_Database e :: ('a, 'b) session)"
  proof
    fix p
    show "cells (waiting [] e) p = cells (new_Database e :: ('a, 'b) session) p"
      by (cases p)
         (auto simp: waiting_def new_Database_def boundary_cells_def fresh_promise_def follow_def)
  qed
  then show ?thesis
    by (simp add: session.equality waiting_def new_Database_def)
qed

lemma submit_all_new: "submit_all ops (new_Database e) = waiting ops e"
proof (induction ops rule: rev_induct)
  case Nil
  show ?case by (simp add: submit_all_def waiting_Nil)
next
  case (snoc t ops)
  then show ?case by (simp add: submit_all_snoc enqueue_waiting)
qed

lemma createDb_resolves: "createDb_settles (Resolved Db) (waiting ops e) = at_boundary ops e 0"
proof -
  have "cells (createDb_settles (Resolved Db) (waiting ops e)) = cells (at_boundary ops e 0)"
  proof
    fix p
    show "cells (createDb_settles (Resolved Db) (waiting ops e)) p = cells (at_boundary ops e 0) p"
      by (cases p)
         (auto simp: createDb_settles_def settle_def waiting_def at_boundary_def boundary_cells_def
            fresh_promise_def follow_def)
  qed
  moreover have "jobs (createDb_settles (Resolved Db) (waiting ops e)) = jobs (at_boundary ops e 0)"
    by (simp add: createDb_settles_def settle_def waiting_def at_boundary_def fire_def)
  ultimately show ?thesis
    by (simp add: session.equality createDb_settles_def settle_def waiting_def at_boundary_def)
qed

lemma enqueue_at_boundary:
  assumes "k \<le> length ops"
  shows "snd (enqueue t (at_boundary ops e k)) = at_boundary (ops @ [t]) e k"
proof -
  have c: "cells (snd (enqueue t (at_boundary ops e k))) = cells (at_boundary (ops @ [t]) e k)"
  proof
    fix p
    show "cells (snd (enqueue t (at_boundary ops e k))) p = cells (at_boundary (ops @ [t]) e k) p"
      using assms
      by (cases p)
         (auto simp: enqueue_def Let_def promise_then_def at_boundary_def boundary_cells_def
            fresh_promise_def follow_append outcome_of_append follow_def nth_append)
  qed
  have j: "jobs (snd (enqueue t (at_boundary ops e k))) = jobs (at_boundary (ops @ [t]) e k)"
    using assms
    by (auto simp: enqueue_def Let_def promise_then_def at_boundary_def boundary_cells_def
            fresh_promise_def follow_append follow_def fire_def nth_append)
  have rest:
    "queue (snd (enqueue t (at_boundary ops e k))) = queue (at_boundary (ops @ [t]) e k)"
    "submitted (snd (enqueue t (at_boundary ops e k))) = submitted (at_boundary (ops @ [t]) e k)"
    "engine (snd (enqueue t (at_boundary ops e k))) = engine (at_boundary (ops @ [t]) e k)"
    "trace (snd (enqueue t (at_boundary ops e k))) = trace (at_boundary (ops @ [t]) e k)"
    using assms
    by (auto simp: enqueue_def Let_def promise_then_def at_boundary_def boundary_cells_def
            fresh_promise_def follow_def)
  from c j rest show ?thesis by (simp add: session.equality)
qed

lemma drain_add: "drain (a + b) s = drain b (drain a s)"
  by (induction a arbitrary: s) simp_all

lemma run_ops_append: "run_ops (xs @ ys) e = run_ops ys (run_ops xs e)"
  by (induction xs arbitrary: e) simp_all

lemma one_at_a_time_append:
  "one_at_a_time n (xs @ ys) e =
     one_at_a_time n xs e @ one_at_a_time (n + length xs) ys (run_ops xs e)"
  by (induction xs arbitrary: n e) simp_all

lemma boundary_cells_Suc:
  assumes "k < length ops"
  shows "boundary_cells ops e (Suc k) =
     (boundary_cells ops e k)
       (Result (Suc k) := \<lparr>state = Settled (outcome_of ops e k), reactions = [], handled = True\<rparr>,
        Queue (Suc k) := \<lparr>state = Settled (Resolved Db), reactions = [], handled = True\<rparr>,
        Guard (Suc k) := \<lparr>state = Settled (Resolved Db), reactions = [], handled = False\<rparr>)"
proof
  fix p
  show "boundary_cells ops e (Suc k) p =
     ((boundary_cells ops e k)
       (Result (Suc k) := \<lparr>state = Settled (outcome_of ops e k), reactions = [], handled = True\<rparr>,
        Queue (Suc k) := \<lparr>state = Settled (Resolved Db), reactions = [], handled = True\<rparr>,
        Guard (Suc k) := \<lparr>state = Settled (Resolved Db), reactions = [], handled = False\<rparr>)) p"
    using assms by (cases p) (auto simp: boundary_cells_def le_Suc_eq)
qed

lemma tail_drains:
  fixes s :: "('e, 'v) session"
  assumes "jobs s = [RunReaction (Resume Db) (Queue i) out]"
    and "cells s (Queue i) = \<lparr>state = Pending, reactions = (Swallow, Guard i) # fl, handled = True\<rparr>"
    and "cells s (Guard i) = fresh_promise"
  shows "drain (Suc (Suc 0)) s =
     s\<lparr>cells := (cells s)
          (Queue i := \<lparr>state = Settled (Resolved Db), reactions = [], handled = True\<rparr>,
           Guard i := \<lparr>state = Settled (Resolved Db), reactions = [], handled = False\<rparr>),
       jobs := fire (Resolved Db) fl,
       trace := trace s @ [Settle (Queue i) (Resolved Db), Settle (Guard i) (Resolved Db)]\<rparr>"
  using assms
  by (simp add: tick_def settle_def fire_def fresh_promise_def)

lemma head_drains:
  fixes s :: "('e, 'v) session"
  assumes j: "jobs s = [RunReaction (CallOperation t) r (Resolved Db),
                        RunReaction (AwaitResult r) q (Resolved Db)]"
    and r: "cells s r = fresh_promise"
  shows "\<exists>n. drain n s =
     s\<lparr>cells := (cells s)
          (r := \<lparr>state = Settled (fst (run_task t (engine s))), reactions = [], handled = True\<rparr>),
       jobs := [RunReaction (Resume Db) q (fst (run_task t (engine s)))],
       engine := snd (run_task t (engine s)),
       trace := trace s @ Invoke r # task_events r t (engine s)\<rparr>"
proof (cases t)
  case (Finish out)
  have "drain (Suc (Suc 0)) s =
     s\<lparr>cells := (cells s)
          (r := \<lparr>state = Settled (fst (run_task t (engine s))), reactions = [], handled = True\<rparr>),
       jobs := [RunReaction (Resume Db) q (fst (run_task t (engine s)))],
       engine := snd (run_task t (engine s)),
       trace := trace s @ Invoke r # task_events r t (engine s)\<rparr>"
    using j r Finish
    by (simp add: tick_def advance_def settle_def promise_then_def fresh_promise_def)
  then show ?thesis by (rule exI)
next
  case (Segment upd c)
  let ?s2 = "s\<lparr>cells := (cells s)(r := \<lparr>state = Pending, reactions = [(Resume Db, q)], handled = True\<rparr>),
               engine := upd (engine s),
               trace := trace s @ [Invoke r, Step r]\<rparr>"
  have two: "drain (Suc (Suc 0)) s = ?s2\<lparr>jobs := [RunTask (c (engine s)) r]\<rparr>"
    using j r Segment
    by (simp add: tick_def advance_def promise_then_def fresh_promise_def)
  have "state (cells ?s2 r) = Pending" by simp
  from run_task_drains [OF this, of "c (engine s)"]
  obtain n where n: "drain n (?s2\<lparr>jobs := [RunTask (c (engine s)) r]\<rparr>) =
     ?s2\<lparr>cells := (cells ?s2)(r := (cells ?s2 r)\<lparr>state := Settled (fst (run_task (c (engine s)) (engine ?s2))), reactions := []\<rparr>),
       jobs := fire (fst (run_task (c (engine s)) (engine ?s2))) (reactions (cells ?s2 r)),
       engine := snd (run_task (c (engine s)) (engine ?s2)),
       trace := trace ?s2 @ task_events r (c (engine s)) (engine ?s2)\<rparr>" by blast
  have "drain (Suc (Suc 0) + n) s =
     s\<lparr>cells := (cells s)
          (r := \<lparr>state = Settled (fst (run_task t (engine s))), reactions = [], handled = True\<rparr>),
       jobs := [RunReaction (Resume Db) q (fst (run_task t (engine s)))],
       engine := snd (run_task t (engine s)),
       trace := trace s @ Invoke r # task_events r t (engine s)\<rparr>"
    unfolding drain_add two n using Segment by (simp add: fire_def)
  then show ?thesis by (rule exI)
qed

lemma at_boundary_step:
  assumes k: "k < length ops"
  shows "\<exists>n. drain n (at_boundary ops e k) = at_boundary ops e (Suc k)"
proof -
  let ?S = "at_boundary ops e k :: ('a, 'b) session"
  let ?t = "ops ! k"
  let ?out = "fst (run_task ?t (engine ?S))"
  have j: "jobs ?S = [RunReaction (CallOperation ?t) (Result (Suc k)) (Resolved Db),
                     RunReaction (AwaitResult (Result (Suc k))) (Queue (Suc k)) (Resolved Db)]"
    using k by (simp add: at_boundary_def follow_def fire_def)
  have r: "cells ?S (Result (Suc k)) = fresh_promise"
    by (simp add: at_boundary_def boundary_cells_def)
  from head_drains [OF j r] obtain n where n: "drain n ?S =
     ?S\<lparr>cells := (cells ?S)
          (Result (Suc k) := \<lparr>state = Settled ?out, reactions = [], handled = True\<rparr>),
       jobs := [RunReaction (Resume Db) (Queue (Suc k)) ?out],
       engine := snd (run_task ?t (engine ?S)),
       trace := trace ?S @ Invoke (Result (Suc k)) # task_events (Result (Suc k)) ?t (engine ?S)\<rparr>"
    by blast
  let ?S1 = "drain n ?S"
  have j1: "jobs ?S1 = [RunReaction (Resume Db) (Queue (Suc k)) ?out]" unfolding n by simp
  have q1: "cells ?S1 (Queue (Suc k)) =
      \<lparr>state = Pending, reactions = (Swallow, Guard (Suc k)) # follow ops (Suc k), handled = True\<rparr>"
    unfolding n using k by (simp add: at_boundary_def boundary_cells_def)
  have g1: "cells ?S1 (Guard (Suc k)) = fresh_promise"
    unfolding n by (simp add: at_boundary_def boundary_cells_def)
  have tk: "take (Suc k) ops = take k ops @ [ops ! k]"
    using k by (rule take_Suc_conv_app_nth)
  have len: "length (take k ops) = k" using k by simp
  have out: "?out = outcome_of ops e k"
    by (simp add: outcome_of_def at_boundary_def)
  have "drain (n + Suc (Suc 0)) ?S = at_boundary ops e (Suc k)"
    unfolding drain_add tail_drains [OF j1 q1 g1]
    unfolding n using k
    by (simp add: at_boundary_def boundary_cells_Suc [OF k] tk run_ops_append
        one_at_a_time_append len out [unfolded at_boundary_def, simplified] min_absorb2)
  then show ?thesis by (rule exI)
qed

lemma at_boundary_drains:
  assumes "k \<le> length ops"
  shows "\<exists>n. drain n (at_boundary ops e k) = at_boundary ops e (length ops)"
  using assms
proof (induction "length ops - k" arbitrary: k)
  case 0
  then have "k = length ops" by simp
  then have "drain 0 (at_boundary ops e k) = at_boundary ops e (length ops)" by simp
  then show ?case by (rule exI)
next
  case (Suc d)
  then have k: "k < length ops" by simp
  from at_boundary_step [OF k, of e] obtain a where
    a: "drain a (at_boundary ops e k) = at_boundary ops e (Suc k)" by blast
  from Suc.hyps(2) k have "d = length ops - Suc k" by simp
  from Suc.hyps(1) [OF this] k obtain b where
    b: "drain b (at_boundary ops e (Suc k)) = at_boundary ops e (length ops)" by auto
  have "drain (a + b) (at_boundary ops e k) = at_boundary ops e (length ops)"
    by (simp add: drain_add a b)
  then show ?case by (rule exI)
qed

subsection \<open>Order of execution\<close>

lemma submit_all_at_boundary:
  "k \<le> length ops \<Longrightarrow> submit_all later (at_boundary ops e k) = at_boundary (ops @ later) e k"
proof (induction later rule: rev_induct)
  case Nil
  show ?case by (simp add: submit_all_def)
next
  case (snoc t later)
  from snoc.prems have "k \<le> length (ops @ later)" by simp
  from enqueue_at_boundary [OF this, of t e] snoc show ?case
    by (simp add: submit_all_snoc)
qed

lemma at_boundary_done:
  "jobs (at_boundary ops e (length ops)) = []"
  "engine (at_boundary ops e (length ops)) = run_ops ops e"
  "trace (at_boundary ops e (length ops)) = Settle (Queue 0) (Resolved Db) # one_at_a_time 0 ops e"
  by (simp_all add: at_boundary_def follow_def fire_def)

subsection \<open>One job at a time\<close>

lemma run_ops_take_Suc:
  "k < length ops \<Longrightarrow> run_ops (take (Suc k) ops) e = snd (run_task (ops ! k) (run_ops (take k ops) e))"
  by (simp add: take_Suc_conv_app_nth run_ops_append)

lemma residual_finish:
  "deep j t e \<Longrightarrow> fst (residual j t e) = Finish out \<Longrightarrow>
     run_task t e = (out, snd (residual j t e)) \<and>
     task_events r t e = replicate j (Step r) @ [Settle r out]"
proof (induction j t e rule: residual.induct)
  case (1 t e) then show ?case by simp
next
  case (2 j upd k e) then show ?case by simp
next
  case (3 j out' e) then show ?case by simp
qed

lemma residual_segment:
  "deep j t e \<Longrightarrow> fst (residual j t e) = Segment upd c \<Longrightarrow>
     deep (Suc j) t e \<and>
     residual (Suc j) t e = (c (snd (residual j t e)), upd (snd (residual j t e)))"
proof (induction j t e rule: residual.induct)
  case (1 t e) then show ?case by simp
next
  case (2 j upd' k e) then show ?case by simp
next
  case (3 j out' e) then show ?case by simp
qed

lemma tick_at_boundary:
  assumes k: "k < length ops"
  shows "tick (at_boundary ops e k) = called ops e k"
proof (cases "ops ! k")
  case (Finish out)
  with k show ?thesis
    by (simp add: tick_def at_boundary_def follow_def fire_def called_def advance_def settle_def
        boundary_cells_def fresh_promise_def)
next
  case (Segment upd c)
  with k show ?thesis
    by (simp add: tick_def at_boundary_def follow_def fire_def called_def advance_def)
qed

lemma tick_called:
  assumes k: "k < length ops"
  shows "tick (called ops e k) =
     (case ops ! k of Finish out \<Rightarrow> finished ops e k | Segment upd c \<Rightarrow> running ops e k (Suc 0))"
proof (cases "ops ! k")
  case (Finish out)
  with k show ?thesis
    by (simp add: tick_def called_def finished_def promise_then_def at_boundary_def outcome_of_def
        run_ops_take_Suc)
next
  case (Segment upd c)
  with k show ?thesis
    by (simp add: tick_def called_def running_def promise_then_def at_boundary_def boundary_cells_def
        fresh_promise_def)
qed

lemma tick_running:
  assumes k: "k < length ops" and d: "deep j (ops ! k) (run_ops (take k ops) e)"
  shows "tick (running ops e k j) =
     (case fst (residual j (ops ! k) (run_ops (take k ops) e)) of
        Finish out \<Rightarrow> finished ops e k
      | Segment upd c \<Rightarrow> running ops e k (Suc j))"
proof (cases "fst (residual j (ops ! k) (run_ops (take k ops) e))")
  case (Finish out)
  from residual_finish [OF d Finish, of "Result (Suc k)"] Finish k show ?thesis
    by (simp add: tick_def running_def finished_def advance_def settle_def outcome_of_def
        run_ops_take_Suc at_boundary_def)
next
  case (Segment upd c)
  from residual_segment [OF d Segment] Segment k show ?thesis
    by (simp add: tick_def running_def advance_def at_boundary_def replicate_append_same)
qed

lemma tick_finished:
  assumes k: "k < length ops"
  shows "tick (finished ops e k) = resumed ops e k"
  using k
  by (simp add: tick_def finished_def resumed_def settle_def at_boundary_def boundary_cells_def
      fire_def)

lemma tick_resumed:
  assumes k: "k < length ops"
  shows "tick (resumed ops e k) = at_boundary ops e (Suc k)"
  using k
  by (simp add: tick_def resumed_def settle_def at_boundary_def boundary_cells_Suc
      boundary_cells_def fresh_promise_def fire_def fun_upd_twist take_Suc_conv_app_nth
      one_at_a_time_append run_ops_append)

subsection \<open>Submitting in the middle of an operation\<close>

lemma enqueue_frame:
  assumes "state (cells s (queue s)) = Pending"
    and "state (cells s (Queue (Suc (submitted s)))) = Pending"
    and "p \<noteq> queue s" and "p \<noteq> Queue (Suc (submitted s))"
  shows "snd (enqueue t (s\<lparr>cells := (cells s)(p := x), jobs := J, engine := E, trace := T\<rparr>)) =
         (snd (enqueue t s))\<lparr>cells := (cells (snd (enqueue t s)))(p := x), jobs := J, engine := E,
                               trace := T\<rparr>"
  using assms
  by (auto simp: enqueue_def Let_def promise_then_def fun_upd_twist)

lemma enqueue_frame_jobs:
  assumes "state (cells s (queue s)) = Pending"
    and "state (cells s (Queue (Suc (submitted s)))) = Pending"
  shows "snd (enqueue t (s\<lparr>jobs := J, engine := E, trace := T\<rparr>)) =
         (snd (enqueue t s))\<lparr>jobs := J, engine := E, trace := T\<rparr>"
  using assms
  by (auto simp: enqueue_def Let_def promise_then_def)

lemma at_boundary_tail:
  assumes "k < length ops"
  shows "queue (at_boundary ops e k) = Queue (length ops)"
    and "submitted (at_boundary ops e k) = length ops"
    and "state (cells (at_boundary ops e k) (Queue (length ops))) = Pending"
    and "state (cells (at_boundary ops e k) (Queue (Suc (length ops)))) = Pending"
    and "cells (at_boundary ops e k) = boundary_cells ops e k"
  using assms by (simp_all add: at_boundary_def boundary_cells_def fresh_promise_def)

lemma enqueue_called:
  assumes k: "k < length ops"
  shows "snd (enqueue t (called ops e k)) = called (ops @ [t]) e k"
proof -
  note tl = at_boundary_tail [OF k, of e]
  from k have k': "k \<le> length ops" by simp
  show ?thesis
  proof (cases "ops ! k")
    case (Finish out)
    have "snd (enqueue t (called ops e k)) =
      (snd (enqueue t (at_boundary ops e k)))
        \<lparr>cells := (cells (snd (enqueue t (at_boundary ops e k))))
           (Result (Suc k) := \<lparr>state = Settled out, reactions = [], handled = False\<rparr>),
         jobs := [RunReaction (AwaitResult (Result (Suc k))) (Queue (Suc k)) (Resolved Db)],
         engine := run_ops (take k ops) e,
         trace := trace (at_boundary ops e k) @ [Invoke (Result (Suc k)), Settle (Result (Suc k)) out]\<rparr>"
      using enqueue_frame [where s="at_boundary ops e k" and p="Result (Suc k)" and t=t]
        tl Finish
      by (simp add: called_def)
    also have "\<dots> = called (ops @ [t]) e k"
      unfolding enqueue_at_boundary [OF k'] using Finish k
      by (simp add: called_def nth_append at_boundary_def)
    finally show ?thesis .
  next
    case (Segment upd c)
    have "snd (enqueue t (called ops e k)) =
      (snd (enqueue t (at_boundary ops e k)))
        \<lparr>jobs := [RunReaction (AwaitResult (Result (Suc k))) (Queue (Suc k)) (Resolved Db),
                      RunTask (c (run_ops (take k ops) e)) (Result (Suc k))],
         engine := upd (run_ops (take k ops) e),
         trace := trace (at_boundary ops e k) @ [Invoke (Result (Suc k)), Step (Result (Suc k))]\<rparr>"
      using enqueue_frame_jobs [where s="at_boundary ops e k" and t=t] tl Segment
      by (simp add: called_def)
    also have "\<dots> = called (ops @ [t]) e k"
      unfolding enqueue_at_boundary [OF k'] using Segment k
      by (simp add: called_def nth_append at_boundary_def)
    finally show ?thesis .
  qed
qed

lemma enqueue_running:
  assumes k: "k < length ops"
  shows "snd (enqueue t (running ops e k j)) = running (ops @ [t]) e k j"
proof -
  note tl = at_boundary_tail [OF k, of e]
  from k have k': "k \<le> length ops" by simp
  have "snd (enqueue t (running ops e k j)) =
      (snd (enqueue t (at_boundary ops e k)))
        \<lparr>cells := (cells (snd (enqueue t (at_boundary ops e k))))
           (Result (Suc k) := \<lparr>state = Pending, reactions = [(Resume Db, Queue (Suc k))], handled = True\<rparr>),
         jobs := [RunTask (fst (residual j (ops ! k) (run_ops (take k ops) e))) (Result (Suc k))],
         engine := snd (residual j (ops ! k) (run_ops (take k ops) e)),
         trace := trace (at_boundary ops e k)
                   @ Invoke (Result (Suc k)) # replicate j (Step (Result (Suc k)))\<rparr>"
    using enqueue_frame [where s="at_boundary ops e k" and p="Result (Suc k)" and t=t] tl
    by (simp add: running_def)
  also have "\<dots> = running (ops @ [t]) e k j"
    unfolding enqueue_at_boundary [OF k'] using k
      by (simp add: running_def nth_append at_boundary_def)
  finally show ?thesis .
qed

lemma enqueue_finished:
  assumes k: "k < length ops"
  shows "snd (enqueue t (finished ops e k)) = finished (ops @ [t]) e k"
proof -
  note tl = at_boundary_tail [OF k, of e]
  from k have k': "k \<le> length ops" by simp
  have "snd (enqueue t (finished ops e k)) =
      (snd (enqueue t (at_boundary ops e k)))
        \<lparr>cells := (cells (snd (enqueue t (at_boundary ops e k))))
           (Result (Suc k) := \<lparr>state = Settled (outcome_of ops e k), reactions = [], handled = True\<rparr>),
         jobs := [RunReaction (Resume Db) (Queue (Suc k)) (outcome_of ops e k)],
         engine := run_ops (take (Suc k) ops) e,
         trace := trace (at_boundary ops e k)
                   @ Invoke (Result (Suc k))
                     # task_events (Result (Suc k)) (ops ! k) (run_ops (take k ops) e)\<rparr>"
    using enqueue_frame [where s="at_boundary ops e k" and p="Result (Suc k)" and t=t] tl
    by (simp add: finished_def)
  also have "\<dots> = finished (ops @ [t]) e k"
    unfolding enqueue_at_boundary [OF k'] using k
      by (simp add: finished_def nth_append at_boundary_def outcome_of_append)
  finally show ?thesis .
qed

lemma enqueue_frame2:
  assumes "state (cells s (queue s)) = Pending"
    and "state (cells s (Queue (Suc (submitted s)))) = Pending"
    and "p \<noteq> queue s" and "p \<noteq> Queue (Suc (submitted s))"
    and "p' \<noteq> queue s" and "p' \<noteq> Queue (Suc (submitted s))"
  shows "snd (enqueue t (s\<lparr>cells := (cells s)(p := x, p' := y), jobs := J, engine := E, trace := T\<rparr>)) =
         (snd (enqueue t s))\<lparr>cells := (cells (snd (enqueue t s)))(p := x, p' := y), jobs := J,
                               engine := E, trace := T\<rparr>"
  using assms
  by (auto simp: enqueue_def Let_def promise_then_def fun_upd_twist)

lemma enqueue_resumed:
  assumes k: "k < length ops"
  shows "snd (enqueue t (resumed ops e k)) = resumed (ops @ [t]) e k"
proof (cases "Suc k < length ops")
  case True
  note tl = at_boundary_tail [OF k, of e]
  from k have k': "k \<le> length ops" by simp
  have "snd (enqueue t (resumed ops e k)) =
      (snd (enqueue t (at_boundary ops e k)))
        \<lparr>cells := (cells (snd (enqueue t (at_boundary ops e k))))
           (Result (Suc k) := \<lparr>state = Settled (outcome_of ops e k), reactions = [], handled = True\<rparr>,
            Queue (Suc k) := \<lparr>state = Settled (Resolved Db), reactions = [], handled = True\<rparr>),
         jobs := RunReaction Swallow (Guard (Suc k)) (Resolved Db)
                  # fire (Resolved Db) (follow ops (Suc k)),
         engine := run_ops (take (Suc k) ops) e,
         trace := trace (at_boundary ops e k)
                   @ Invoke (Result (Suc k))
                     # task_events (Result (Suc k)) (ops ! k) (run_ops (take k ops) e)
                   @ [Settle (Queue (Suc k)) (Resolved Db)]\<rparr>"
    using enqueue_frame2 [where s="at_boundary ops e k" and p="Result (Suc k)"
        and p'="Queue (Suc k)" and t=t] tl True
    by (simp add: resumed_def)
  also have "\<dots> = resumed (ops @ [t]) e k"
    unfolding enqueue_at_boundary [OF k'] using k True
    by (simp add: resumed_def nth_append at_boundary_def outcome_of_append follow_append)
  finally show ?thesis .
next
  case False
  with k have len: "length ops = Suc k" by simp
  have c: "cells (snd (enqueue t (resumed ops e k))) = cells (resumed (ops @ [t]) e k)"
  proof
    fix p
    show "cells (snd (enqueue t (resumed ops e k))) p = cells (resumed (ops @ [t]) e k) p"
      using len
      by (cases p)
         (auto simp: enqueue_def Let_def promise_then_def resumed_def at_boundary_def
            boundary_cells_def fresh_promise_def follow_def outcome_of_append nth_append)
  qed
  have j: "jobs (snd (enqueue t (resumed ops e k))) = jobs (resumed (ops @ [t]) e k)"
    using len
    by (auto simp: enqueue_def Let_def promise_then_def resumed_def at_boundary_def
            boundary_cells_def fresh_promise_def follow_def fire_def nth_append)
  have rest:
    "queue (snd (enqueue t (resumed ops e k))) = queue (resumed (ops @ [t]) e k)"
    "submitted (snd (enqueue t (resumed ops e k))) = submitted (resumed (ops @ [t]) e k)"
    "engine (snd (enqueue t (resumed ops e k))) = engine (resumed (ops @ [t]) e k)"
    "trace (snd (enqueue t (resumed ops e k))) = trace (resumed (ops @ [t]) e k)"
    using len
    by (auto simp: enqueue_def Let_def promise_then_def resumed_def at_boundary_def
            boundary_cells_def fresh_promise_def nth_append)
  from c j rest show ?thesis by (simp add: session.equality)
qed

subsection \<open>Every schedule\<close>

lemma submissions_append: "submissions (xs @ ys) = submissions xs @ submissions ys"
  by (induction xs rule: submissions.induct) simp_all

lemma step_tick:
  assumes "position_ok ops e pos"
  shows "\<exists>pos'. position_ok ops e pos' \<and> (pos' = Waiting \<longleftrightarrow> pos = Waiting)
           \<and> tick (session_at ops e pos) = session_at ops e pos'"
proof (cases pos)
  case Waiting
  have "tick (waiting ops e) = waiting ops e" by (simp add: tick_def waiting_def)
  with Waiting show ?thesis by (intro exI [of _ Waiting]) simp
next
  case (Boundary k)
  show ?thesis
  proof (cases "k < length ops")
    case True
    with Boundary tick_at_boundary [OF True, of e] show ?thesis
      by (intro exI [of _ "Called k"]) simp
  next
    case False
    with Boundary assms have "k = length ops" by simp
    then have "tick (at_boundary ops e k) = at_boundary ops e k"
      by (simp add: tick_def at_boundary_def follow_def fire_def)
    with Boundary assms show ?thesis by (intro exI [of _ "Boundary k"]) simp
  qed
next
  case (Called k)
  with assms have k: "k < length ops" by simp
  show ?thesis
  proof (cases "ops ! k")
    case (Finish out)
    with Called k tick_called [OF k, of e] show ?thesis
      by (intro exI [of _ "Finished k"]) simp
  next
    case (Segment upd c)
    with Called k tick_called [OF k, of e] show ?thesis
      by (intro exI [of _ "Running k (Suc 0)"]) simp
  qed
next
  case (Running k j)
  with assms have k: "k < length ops" and j: "0 < j"
    and d: "deep j (ops ! k) (run_ops (take k ops) e)" by simp_all
  show ?thesis
  proof (cases "fst (residual j (ops ! k) (run_ops (take k ops) e))")
    case (Finish out)
    with Running k tick_running [OF k d] show ?thesis
      by (intro exI [of _ "Finished k"]) simp
  next
    case (Segment upd c)
    from residual_segment [OF d Segment] have "deep (Suc j) (ops ! k) (run_ops (take k ops) e)"
      by simp
    with Segment Running k tick_running [OF k d] show ?thesis
      by (intro exI [of _ "Running k (Suc j)"]) simp
  qed
next
  case (Finished k)
  with assms tick_finished [of k ops e] show ?thesis
    by (intro exI [of _ "Resumed k"]) simp
next
  case (Resumed k)
  with assms tick_resumed [of k ops e] show ?thesis
    by (intro exI [of _ "Boundary (Suc k)"]) simp
qed

lemma step_enqueue:
  assumes "position_ok ops e pos"
  shows "position_ok (ops @ [t]) e pos \<and>
         snd (enqueue t (session_at ops e pos)) = session_at (ops @ [t]) e pos"
proof (cases pos)
  case Waiting
  then show ?thesis by (simp add: enqueue_waiting)
next
  case (Boundary k)
  with assms show ?thesis by (simp add: enqueue_at_boundary)
next
  case (Called k)
  with assms show ?thesis by (simp add: enqueue_called)
next
  case (Running k j)
  with assms show ?thesis by (simp add: enqueue_running nth_append)
next
  case (Finished k)
  with assms show ?thesis by (simp add: enqueue_finished)
next
  case (Resumed k)
  with assms show ?thesis by (simp add: enqueue_resumed)
qed

lemma createDb_already_settled:
  assumes "position_ok ops e pos" and "pos \<noteq> Waiting"
  shows "createDb_settles out (session_at ops e pos) = session_at ops e pos"
proof -
  have "\<exists>x. state (cells (session_at ops e pos) (Queue 0)) = Settled x"
    using assms
    by (cases pos)
       (auto simp: at_boundary_def called_def running_def finished_def resumed_def boundary_cells_def
          split: task.splits)
  then show ?thesis by (auto simp: createDb_settles_def settle_def)
qed

lemma step_createDb:
  assumes "position_ok ops e pos"
  shows "\<exists>pos'. position_ok ops e pos' \<and> pos' \<noteq> Waiting
           \<and> createDb_settles (Resolved Db) (session_at ops e pos) = session_at ops e pos'"
proof (cases "pos = Waiting")
  case True
  then show ?thesis
    by (intro exI [of _ "Boundary 0"]) (simp add: createDb_resolves)
next
  case False
  with assms createDb_already_settled [OF assms False] show ?thesis
    by (intro exI [of _ pos]) simp
qed

lemma schedule_position:
  "\<exists>pos. position_ok (submissions acts) e pos
         \<and> (pos = Waiting \<longleftrightarrow> CreateDbResolves \<notin> set acts)
         \<and> run_schedule acts (new_Database e) = session_at (submissions acts) e pos"
proof (induction acts rule: rev_induct)
  case Nil
  show ?case by (intro exI [of _ Waiting]) (simp add: run_schedule_def waiting_Nil)
next
  case (snoc a acts)
  then obtain pos where ok: "position_ok (submissions acts) e pos"
    and w: "pos = Waiting \<longleftrightarrow> CreateDbResolves \<notin> set acts"
    and run: "run_schedule acts (new_Database e) = session_at (submissions acts) e pos" by blast
  have r: "run_schedule (acts @ [a]) (new_Database e) = perform a (session_at (submissions acts) e pos)"
    using run by (simp add: run_schedule_def)
  show ?case
  proof (cases a)
    case (Submit t)
    with step_enqueue [OF ok, of t] r w show ?thesis
      by (intro exI [of _ pos]) (simp add: submissions_append)
  next
    case CreateDbResolves
    from step_createDb [OF ok] obtain pos' where
      "position_ok (submissions acts) e pos'" "pos' \<noteq> Waiting"
      "createDb_settles (Resolved Db) (session_at (submissions acts) e pos)
         = session_at (submissions acts) e pos'" by blast
    with CreateDbResolves r show ?thesis
      by (intro exI [of _ pos']) (simp add: submissions_append)
  next
    case RunJob
    from step_tick [OF ok] obtain pos' where
      "position_ok (submissions acts) e pos'" "pos' = Waiting \<longleftrightarrow> pos = Waiting"
      "tick (session_at (submissions acts) e pos) = session_at (submissions acts) e pos'" by blast
    with RunJob r w show ?thesis
      by (intro exI [of _ pos']) (simp add: submissions_append)
  qed
qed

lemma residual_run:
  "deep j t e \<Longrightarrow>
     run_task (fst (residual j t e)) (snd (residual j t e)) = run_task t e \<and>
     replicate j (Step r) @ task_events r (fst (residual j t e)) (snd (residual j t e))
       = task_events r t e"
proof (induction j t e rule: residual.induct)
  case (1 t e) then show ?case by simp
next
  case (2 j upd k e) then show ?case by simp
next
  case (3 j out' e) then show ?case by simp
qed

lemma one_at_a_time_split:
  assumes k: "k < length ops"
  shows "one_at_a_time 0 ops e =
     one_at_a_time 0 (take k ops) e
       @ Invoke (Result (Suc k)) # task_events (Result (Suc k)) (ops ! k) (run_ops (take k ops) e)
       @ [Settle (Queue (Suc k)) (Resolved Db), Settle (Guard (Suc k)) (Resolved Db)]
       @ one_at_a_time (Suc k) (drop (Suc k) ops) (run_ops (take (Suc k) ops) e)"
proof -
  have "ops = take k ops @ ops ! k # drop (Suc k) ops"
    using k by (simp add: id_take_nth_drop [symmetric])
  then have "one_at_a_time 0 ops e =
      one_at_a_time 0 (take k ops @ ops ! k # drop (Suc k) ops) e" by simp
  also have "\<dots> = one_at_a_time 0 (take k ops) e
       @ Invoke (Result (Suc k)) # task_events (Result (Suc k)) (ops ! k) (run_ops (take k ops) e)
       @ [Settle (Queue (Suc k)) (Resolved Db), Settle (Guard (Suc k)) (Resolved Db)]
       @ one_at_a_time (Suc k) (drop (Suc k) ops) (run_ops (take (Suc k) ops) e)"
    using k by (simp add: one_at_a_time_append run_ops_take_Suc min_absorb2)
  finally show ?thesis .
qed

lemma trace_is_initial_part:
  assumes "position_ok ops e pos"
  shows "\<exists>rest. trace (session_at ops e pos) @ rest
           = Settle (Queue 0) (Resolved Db) # one_at_a_time 0 ops e"
proof (cases pos)
  case Waiting
  then show ?thesis by (simp add: waiting_def)
next
  case (Boundary k)
  have "one_at_a_time 0 ops e = one_at_a_time 0 (take k ops @ drop k ops) e" by simp
  also have "\<dots> = one_at_a_time 0 (take k ops) e
      @ one_at_a_time (0 + length (take k ops)) (drop k ops) (run_ops (take k ops) e)"
    by (rule one_at_a_time_append)
  finally show ?thesis using Boundary by (simp add: at_boundary_def)
next
  case (Called k)
  with assms have k: "k < length ops" by simp
  show ?thesis
  proof (cases "ops ! k")
    case (Finish out)
    with Called one_at_a_time_split [OF k, of e] show ?thesis
      by (simp add: called_def at_boundary_def)
  next
    case (Segment upd c)
    with Called one_at_a_time_split [OF k, of e] show ?thesis
      by (simp add: called_def at_boundary_def)
  qed
next
  case (Running k j)
  with assms have k: "k < length ops"
    and d: "deep j (ops ! k) (run_ops (take k ops) e)" by simp_all
  from residual_run [OF d, of "Result (Suc k)"] obtain more where
    "task_events (Result (Suc k)) (ops ! k) (run_ops (take k ops) e)
       = replicate j (Step (Result (Suc k))) @ more" by metis
  with Running one_at_a_time_split [OF k, of e] show ?thesis
    by (simp add: running_def at_boundary_def)
next
  case (Finished k)
  with assms have k: "k < length ops" by simp
  with Finished one_at_a_time_split [OF k, of e] show ?thesis
    by (simp add: finished_def at_boundary_def)
next
  case (Resumed k)
  with assms have k: "k < length ops" by simp
  with Resumed one_at_a_time_split [OF k, of e] show ?thesis
    by (simp add: resumed_def at_boundary_def)
qed

lemma drain_tick: "drain (Suc n) s = drain n (tick s)"
  by simp

lemma finished_drains:
  assumes k: "k < length ops"
  shows "drain (Suc (Suc 0)) (finished ops e k) = at_boundary ops e (Suc k)"
  by (simp add: tick_finished [OF k] tick_resumed [OF k])

lemma running_drains:
  assumes k: "k < length ops" and d: "deep j (ops ! k) (run_ops (take k ops) e)"
  shows "\<exists>n. drain n (running ops e k j) = finished ops e k"
proof -
  let ?S = "running ops e k j :: ('a, 'b) session"
  let ?t = "fst (residual j (ops ! k) (run_ops (take k ops) e))"
  have p: "state (cells ?S (Result (Suc k))) = Pending" by (simp add: running_def)
  have j: "?S\<lparr>jobs := [RunTask ?t (Result (Suc k))]\<rparr> = ?S" by (simp add: running_def)
  from run_task_drains [OF p, of ?t] obtain n where
    n: "drain n (?S\<lparr>jobs := [RunTask ?t (Result (Suc k))]\<rparr>) =
     ?S\<lparr>cells := (cells ?S)(Result (Suc k) := (cells ?S (Result (Suc k)))
            \<lparr>state := Settled (fst (run_task ?t (engine ?S))), reactions := []\<rparr>),
       jobs := fire (fst (run_task ?t (engine ?S))) (reactions (cells ?S (Result (Suc k)))),
       engine := snd (run_task ?t (engine ?S)),
       trace := trace ?S @ task_events (Result (Suc k)) ?t (engine ?S)\<rparr>" by blast
  have e: "engine ?S = snd (residual j (ops ! k) (run_ops (take k ops) e))"
    by (simp add: running_def)
  from residual_run [OF d, of "Result (Suc k)"]
  have rt: "run_task ?t (engine ?S) = run_task (ops ! k) (run_ops (take k ops) e)"
    and ev: "replicate j (Step (Result (Suc k))) @ task_events (Result (Suc k)) ?t (engine ?S)
       = task_events (Result (Suc k)) (ops ! k) (run_ops (take k ops) e)"
    unfolding e by simp_all
  have "drain n ?S = finished ops e k"
    using n unfolding j rt
    using ev k
    by (simp add: running_def finished_def fire_def outcome_of_def run_ops_take_Suc at_boundary_def)
  then show ?thesis by (rule exI)
qed

lemma position_drains:
  assumes ok: "position_ok ops e pos" and nw: "pos \<noteq> Waiting"
  shows "\<exists>n. drain n (session_at ops e pos) = at_boundary ops e (length ops)"
proof -
  have to_next: "\<exists>n. drain n (session_at ops e pos) = at_boundary ops e (Suc k)"
    if k: "k < length ops" and pos: "pos = Called k \<or> pos = Finished k \<or> pos = Resumed k
        \<or> (\<exists>j. pos = Running k j \<and> deep j (ops ! k) (run_ops (take k ops) e))" for k
  proof -
    have fin: "\<exists>n. drain n (finished ops e k) = at_boundary ops e (Suc k)"
      using finished_drains [OF k] by blast
    have run: "\<exists>n. drain n (running ops e k j) = at_boundary ops e (Suc k)"
      if d: "deep j (ops ! k) (run_ops (take k ops) e)" for j
    proof -
      from running_drains [OF k d] obtain a where a: "drain a (running ops e k j) = finished ops e k"
        by blast
      have "drain (a + Suc (Suc 0)) (running ops e k j) = at_boundary ops e (Suc k)"
        unfolding drain_add a by (rule finished_drains [OF k])
      then show ?thesis by (rule exI)
    qed
    from pos consider "pos = Called k" | "pos = Finished k" | "pos = Resumed k"
      | j where "pos = Running k j" "deep j (ops ! k) (run_ops (take k ops) e)" by blast
    then show ?thesis
    proof cases
      case 1
      show ?thesis
      proof (cases "ops ! k")
        case (Finish out)
        from fin obtain n where "drain n (finished ops e k) = at_boundary ops e (Suc k)" by blast
        with Finish tick_called [OF k, of e] have
          "drain (Suc n) (called ops e k) = at_boundary ops e (Suc k)" by simp
        with 1 show ?thesis by (auto intro: exI [of _ "Suc n"])
      next
        case (Segment upd c)
        then have "deep (Suc 0) (ops ! k) (run_ops (take k ops) e)" by simp
        from run [OF this] obtain n where
          "drain n (running ops e k (Suc 0)) = at_boundary ops e (Suc k)" by blast
        with Segment tick_called [OF k, of e] have
          "drain (Suc n) (called ops e k) = at_boundary ops e (Suc k)" by simp
        with 1 show ?thesis by (auto intro: exI [of _ "Suc n"])
      qed
    next
      case 2
      with fin show ?thesis by simp
    next
      case 3
      have "drain (Suc 0) (resumed ops e k) = at_boundary ops e (Suc k)"
        by (simp add: tick_resumed [OF k])
      with 3 show ?thesis by (auto intro: exI [of _ "Suc 0"])
    next
      case (4 j)
      with run [of j] show ?thesis by simp
    qed
  qed
  have finish: "\<exists>n. drain n (session_at ops e pos) = at_boundary ops e (length ops)"
    if "\<exists>n. drain n (session_at ops e pos) = at_boundary ops e (Suc k)" "k < length ops" for k
  proof -
    from that obtain a where a: "drain a (session_at ops e pos) = at_boundary ops e (Suc k)" by blast
    from at_boundary_drains [of "Suc k" ops e] that(2) obtain b where
      b: "drain b (at_boundary ops e (Suc k)) = at_boundary ops e (length ops)" by auto
    have "drain (a + b) (session_at ops e pos) = at_boundary ops e (length ops)"
      by (simp add: drain_add a b)
    then show ?thesis by (rule exI)
  qed
  show ?thesis
  proof (cases pos)
    case Waiting
    with nw show ?thesis by simp
  next
    case (Boundary k)
    with ok at_boundary_drains [of k ops e] show ?thesis by simp
  next
    case (Called k)
    with ok to_next [of k] finish [of k] show ?thesis by simp
  next
    case (Running k j)
    with ok to_next [of k] finish [of k] show ?thesis by auto
  next
    case (Finished k)
    with ok to_next [of k] finish [of k] show ?thesis by simp
  next
    case (Resumed k)
    with ok to_next [of k] finish [of k] show ?thesis by simp
  qed
qed

lemma schedule_drains:
  assumes "CreateDbResolves \<in> set acts"
  shows "\<exists>n. drain n (run_schedule acts (new_Database e))
           = at_boundary (submissions acts) e (length (submissions acts))"
proof -
  from schedule_position [of acts e] obtain pos where
    ok: "position_ok (submissions acts) e pos"
    and w: "pos = Waiting \<longleftrightarrow> CreateDbResolves \<notin> set acts"
    and run: "run_schedule acts (new_Database e) = session_at (submissions acts) e pos" by blast
  show ?thesis unfolding run using position_drains [OF ok] w assms by simp
qed

text \<open>
  Claim C1.  Take any schedule: operations are submitted at any moments, awaited or not,
  \<open>createDb\<close> resolves at some moment, and pending jobs run in between.  At every moment
  the events so far are an initial part of the events of running all operations
  submitted strictly one at a time in the order of submission (\<open>one_at_a_time\<close>, where
  an operation is invoked only after its predecessor has settled).  Once \<open>createDb\<close> has
  resolved, running the pending jobs ends in the session in which all of them have run:
  no job is left and the engine is in the state that running them one after the other
  gives.
\<close>

theorem queue_runs_one_at_a_time:
  "(\<exists>rest. trace (run_schedule acts (new_Database e)) @ rest
             = Settle (Queue 0) (Resolved Db) # one_at_a_time 0 (submissions acts) e)
   \<and> (CreateDbResolves \<in> set acts \<longrightarrow>
        (\<exists>n. drain n (run_schedule acts (new_Database e))
                = at_boundary (submissions acts) e (length (submissions acts))))
   \<and> jobs (at_boundary ops e (length ops)) = []
   \<and> engine (at_boundary ops e (length ops)) = run_ops ops e
   \<and> trace (at_boundary ops e (length ops))
        = Settle (Queue 0) (Resolved Db) # one_at_a_time 0 ops e"
proof -
  from schedule_position [of acts e] obtain pos where
    ok: "position_ok (submissions acts) e pos"
    and w: "pos = Waiting \<longleftrightarrow> CreateDbResolves \<notin> set acts"
    and run: "run_schedule acts (new_Database e) = session_at (submissions acts) e pos" by blast
  have a: "\<exists>rest. trace (run_schedule acts (new_Database e)) @ rest
             = Settle (Queue 0) (Resolved Db) # one_at_a_time 0 (submissions acts) e"
    unfolding run by (rule trace_is_initial_part [OF ok])
  have b: "\<exists>n. drain n (run_schedule acts (new_Database e))
                = at_boundary (submissions acts) e (length (submissions acts))"
    if "CreateDbResolves \<in> set acts"
    unfolding run using position_drains [OF ok] w that by simp
  from a b show ?thesis by (simp add: at_boundary_done)
qed

theorem queue_runs_one_at_a_time_witness:
  "CreateDbResolves \<in> set [Submit (Finish (Resolved (V (1::nat)))), CreateDbResolves, RunJob,
                             Submit (Finish (Resolved (V 2)))]
   \<and> (\<exists>n. drain n (run_schedule [Submit (Finish (Resolved (V (1::nat)))), CreateDbResolves, RunJob,
                                  Submit (Finish (Resolved (V 2)))] (new_Database ()))
         = at_boundary [Finish (Resolved (V 1)), Finish (Resolved (V 2))] () (Suc (Suc 0)))"
  using queue_runs_one_at_a_time
    [of "[Submit (Finish (Resolved (V (1::nat)))), CreateDbResolves, RunJob,
          Submit (Finish (Resolved (V 2)))]" "()" "[]"]
  by auto

subsection \<open>Failures\<close>

lemma run_task_atomic: "run_task (atomic f) e = f e"
  by (simp add: atomic_def)

lemma run_task_operation: "run_task (operation drv c) e = db_method drv c e"
  by (simp add: operation_def run_task_atomic)

lemma db_method_extends: "\<exists>ext. issued (snd (db_method drv c this)) = issued this @ ext"
proof (cases c)
  case (CallTransaction fn m)
  then show ?thesis
    using transaction_extends [of "run_prog drv fn" drv m this] run_prog_extends [of drv fn]
    by simp
next
  case (CallOther f)
  then show ?thesis by (simp split: prod.splits)
qed (simp_all add: exec_extends begin_tx_def commit_def rollback_def backup_override_def
       serialize_override_def close_def raw_def split: prod.splits option.splits)

lemma run_calls_extend:
  "\<exists>ext. issued (run_ops (map (operation drv) cs) this) = issued this @ ext"
proof (induction cs arbitrary: this)
  case Nil show ?case by simp
next
  case (Cons c cs)
  from db_method_extends [of drv c this] obtain e1 where
    "issued (snd (db_method drv c this)) = issued this @ e1" by blast
  moreover from Cons [of "snd (db_method drv c this)"] obtain e2 where
    "issued (run_ops (map (operation drv) cs) (snd (db_method drv c this))) =
       issued (snd (db_method drv c this)) @ e2" by blast
  ultimately show ?case by (simp add: run_task_operation)
qed

lemma batch_result:
  assumes "i < length ops"
  shows "state (cells (at_boundary ops e (length ops)) (Result (Suc i))) = Settled (outcome_of ops e i)"
    and "handled (cells (at_boundary ops e (length ops)) (Result (Suc i)))"
  using assms by (simp_all add: at_boundary_def boundary_cells_def)

lemma batch_drains:
  "\<exists>n. drain n (createDb_settles (Resolved Db) (submit_all ops (new_Database e)))
          = at_boundary ops e (length ops)"
  using at_boundary_drains [of 0 ops e] by (simp add: submit_all_new createDb_resolves)

text \<open>
  Claim C4.  A failing operation is seen by its own caller only.  In any schedule in
  which \<open>createDb\<close> resolves, once the pending jobs have run, each result promise is
  settled with the outcome of its own operation on the engine its predecessors left,
  whether those failed or not; every queue promise is fulfilled with the database
  object, none rejected; and every rejected promise has had a callback registered on it,
  so no rejection is unhandled.
\<close>

theorem failure_does_not_break_queue:
  assumes "CreateDbResolves \<in> set acts"
  shows "\<exists>n. (\<forall>i<length (submissions acts).
           state (cells (drain n (run_schedule acts (new_Database e))) (Result (Suc i)))
           = Settled (fst (run_task (submissions acts ! i) (run_ops (take i (submissions acts)) e))))
      \<and> (\<forall>i\<le>length (submissions acts).
           state (cells (drain n (run_schedule acts (new_Database e))) (Queue i))
             = Settled (Resolved Db))
      \<and> (\<forall>p err.
           state (cells (drain n (run_schedule acts (new_Database e))) p) = Settled (Rejected err) \<longrightarrow>
           handled (cells (drain n (run_schedule acts (new_Database e))) p))
      \<and> jobs (drain n (run_schedule acts (new_Database e))) = []"
proof -
  let ?ops = "submissions acts"
  from schedule_drains [OF assms, of e] obtain n where
    n: "drain n (run_schedule acts (new_Database e)) = at_boundary ?ops e (length ?ops)" by blast
  have 1: "\<forall>i<length ?ops. state (cells (at_boundary ?ops e (length ?ops)) (Result (Suc i)))
           = Settled (fst (run_task (?ops ! i) (run_ops (take i ?ops) e)))"
    by (simp add: batch_result outcome_of_def)
  have 2: "\<forall>i\<le>length ?ops. state (cells (at_boundary ?ops e (length ?ops)) (Queue i)) = Settled (Resolved Db)"
    by (simp add: at_boundary_def boundary_cells_def)
  have 3: "\<forall>p err. state (cells (at_boundary ?ops e (length ?ops)) p) = Settled (Rejected err) \<longrightarrow>
             handled (cells (at_boundary ?ops e (length ?ops)) p)"
  proof (intro allI impI)
    fix p err
    assume "state (cells (at_boundary ?ops e (length ?ops)) p) = Settled (Rejected err)"
    then show "handled (cells (at_boundary ?ops e (length ?ops)) p)"
      by (cases p) (auto simp: at_boundary_def boundary_cells_def fresh_promise_def split: if_splits)
  qed
  have 4: "jobs (at_boundary ?ops e (length ?ops)) = []" by (rule at_boundary_done)
  show ?thesis
    by (rule exI [of _ n]) (use 1 2 3 4 in \<open>simp only: n simp_thms\<close>)
qed

theorem failure_does_not_break_queue_witness:
  "CreateDbResolves \<in> set [Submit (Finish (Rejected (V ''invalid SQL''))), CreateDbResolves,
                             Submit (Finish (Resolved (V ''ok'')))]
   \<and> (\<exists>n. state (cells (drain n (run_schedule
             [Submit (Finish (Rejected (V ''invalid SQL''))), CreateDbResolves,
              Submit (Finish (Resolved (V ''ok'')))] (new_Database ())))
           (Result (Suc 0))) = Settled (Rejected (V ''invalid SQL''))
      \<and> state (cells (drain n (run_schedule
             [Submit (Finish (Rejected (V ''invalid SQL''))), CreateDbResolves,
              Submit (Finish (Resolved (V ''ok'')))] (new_Database ())))
           (Result (Suc (Suc 0)))) = Settled (Resolved (V ''ok''))
      \<and> handled (cells (drain n (run_schedule
             [Submit (Finish (Rejected (V ''invalid SQL''))), CreateDbResolves,
              Submit (Finish (Resolved (V ''ok'')))] (new_Database ())))
           (Result (Suc 0))))"
  using failure_does_not_break_queue
    [of "[Submit (Finish (Rejected (V ''invalid SQL''))), CreateDbResolves,
          Submit (Finish (Resolved (V ''ok'')))]" "()"]
  by (auto simp: All_less_Suc)

lemma createDb_rejects:
  "createDb_settles (Rejected err) (waiting ops e) = all_rejected ops err e 0"
proof -
  have "cells (createDb_settles (Rejected err) (waiting ops e)) = cells (all_rejected ops err e 0)"
  proof
    fix p
    show "cells (createDb_settles (Rejected err) (waiting ops e)) p = cells (all_rejected ops err e 0) p"
      by (cases p)
         (auto simp: createDb_settles_def settle_def waiting_def all_rejected_def boundary_cells_def
            rejected_cells_def fresh_promise_def follow_def)
  qed
  moreover have "jobs (createDb_settles (Rejected err) (waiting ops e)) = jobs (all_rejected ops err e 0)"
    by (simp add: createDb_settles_def settle_def waiting_def all_rejected_def fire_def)
  ultimately show ?thesis
    by (simp add: session.equality createDb_settles_def settle_def waiting_def all_rejected_def)
qed

lemma rejected_cells_Suc:
  assumes "k < length ops"
  shows "rejected_cells ops err (Suc k) =
     (rejected_cells ops err k)
       (Result (Suc k) := \<lparr>state = Settled (Rejected err), reactions = [], handled = False\<rparr>,
        Queue (Suc k) := \<lparr>state = Settled (Rejected err), reactions = [], handled = True\<rparr>,
        Guard (Suc k) := \<lparr>state = Settled (Resolved Undefined), reactions = [], handled = False\<rparr>)"
proof
  fix p
  show "rejected_cells ops err (Suc k) p =
     ((rejected_cells ops err k)
       (Result (Suc k) := \<lparr>state = Settled (Rejected err), reactions = [], handled = False\<rparr>,
        Queue (Suc k) := \<lparr>state = Settled (Rejected err), reactions = [], handled = True\<rparr>,
        Guard (Suc k) := \<lparr>state = Settled (Resolved Undefined), reactions = [], handled = False\<rparr>)) p"
    using assms by (cases p) (auto simp: rejected_cells_def le_Suc_eq)
qed

lemma all_rejected_step:
  assumes k: "k < length ops"
  shows "drain (Suc (Suc (Suc 0))) (all_rejected ops err e k) = all_rejected ops err e (Suc k)"
proof -
  let ?S = "all_rejected ops err e k :: ('a, 'b) session"
  have j: "jobs ?S = [RunReaction (CallOperation (ops ! k)) (Result (Suc k)) (Rejected err),
                     RunReaction (AwaitResult (Result (Suc k))) (Queue (Suc k)) (Rejected err)]"
    using k by (simp add: all_rejected_def follow_def fire_def)
  have r: "cells ?S (Result (Suc k)) = fresh_promise"
    by (simp add: all_rejected_def rejected_cells_def)
  have q: "cells ?S (Queue (Suc k)) =
      \<lparr>state = Pending, reactions = (Swallow, Guard (Suc k)) # follow ops (Suc k), handled = True\<rparr>"
    using k by (simp add: all_rejected_def rejected_cells_def)
  have g: "cells ?S (Guard (Suc k)) = fresh_promise"
    by (simp add: all_rejected_def rejected_cells_def)
  have "drain (Suc (Suc (Suc 0))) ?S =
     ?S\<lparr>cells := (cells ?S)
          (Result (Suc k) := \<lparr>state = Settled (Rejected err), reactions = [], handled = False\<rparr>,
           Queue (Suc k) := \<lparr>state = Settled (Rejected err), reactions = [], handled = True\<rparr>,
           Guard (Suc k) := \<lparr>state = Settled (Resolved Undefined), reactions = [], handled = False\<rparr>),
        jobs := fire (Rejected err) (follow ops (Suc k)),
        trace := trace ?S @ [Settle (Result (Suc k)) (Rejected err), Settle (Queue (Suc k)) (Rejected err),
          Settle (Guard (Suc k)) (Resolved Undefined)]\<rparr>"
    using j r q g by (simp add: tick_def settle_def fire_def fresh_promise_def)
  also have "\<dots> = all_rejected ops err e (Suc k)"
    by (simp add: all_rejected_def rejected_cells_Suc [OF k])
  finally show ?thesis .
qed

lemma all_rejected_drains:
  assumes "k \<le> length ops"
  shows "\<exists>n. drain n (all_rejected ops err e k) = all_rejected ops err e (length ops)"
  using assms
proof (induction "length ops - k" arbitrary: k)
  case 0
  then have "k = length ops" by simp
  then have "drain 0 (all_rejected ops err e k) = all_rejected ops err e (length ops)" by simp
  then show ?case by (rule exI)
next
  case (Suc d)
  then have k: "k < length ops" by simp
  from Suc.hyps(2) k have "d = length ops - Suc k" by simp
  from Suc.hyps(1) [OF this] k obtain b where
    b: "drain b (all_rejected ops err e (Suc k)) = all_rejected ops err e (length ops)" by auto
  have "drain (Suc (Suc (Suc 0)) + b) (all_rejected ops err e k) = all_rejected ops err e (length ops)"
    unfolding drain_add all_rejected_step [OF k] by (rule b)
  then show ?case by (rule exI)
qed

lemma createDb_failure_rejects_all:
  "\<exists>n. drain n (createDb_settles (Rejected err) (submit_all ops (new_Database e)))
         = all_rejected ops err e (length ops)"
  using all_rejected_drains [of 0 ops err e] by (simp add: submit_all_new createDb_rejects)

lemma all_rejected_results:
  "i < length ops \<Longrightarrow>
     state (cells (all_rejected ops err e (length ops)) (Result (Suc i))) = Settled (Rejected err)"
  "engine (all_rejected ops err e (length ops)) = e"
  "ops \<noteq> [] \<Longrightarrow> i \<le> length ops \<Longrightarrow> handled (cells (all_rejected ops err e (length ops)) (Queue i))"
  by (simp_all add: all_rejected_def rejected_cells_def)

text \<open>
  Claim C8.  When \<open>createDb\<close> fails, every operation submitted is rejected with that same
  error and the queue promises are guarded by \<open>catch\<close> (\<open>createDb_failure_rejects_all\<close>,
  \<open>all_rejected_results\<close>).  But the guard is attached by \<open>#enqueue\<close> only: on a session to
  which nothing is submitted, the rejected promise of \<open>createDb\<close> has no callback and no
  job is left that could attach one.
\<close>

theorem createDb_rejection_unhandled:
  "cells (createDb_settles (Rejected (Error ''Unknown driver: unknown'')) (new_Database () :: (unit, nat) session)) (Queue 0)
     = \<lparr>state = Settled (Rejected (Error ''Unknown driver: unknown'')), reactions = [],
        handled = False\<rparr>
   \<and> jobs (createDb_settles (Rejected (Error ''Unknown driver: unknown'')) (new_Database () :: (unit, nat) session)) = []"
  by (simp add: createDb_settles_def settle_def new_Database_def fresh_promise_def)

subsection \<open>Transactions on the session\<close>

lemma transaction_opening_first:
  assumes fn: "\<And>s. \<exists>ext. issued (snd (fn s)) = issued s @ ext"
  shows "\<exists>ok rest. issued (snd (transaction drv fn m this)) =
       issued this @ (Manager, opening_sql m (transactionDepth this), ok, transactionDepth this) # rest"
proof (cases rule: transaction_cases [where drv=drv and m=m and this=this and fn=fn])
  case (open_failed err this1)
  from catch_block_extends [of drv "transactionDepth this" err this1]
    exec_from_Rejected [OF open_failed(1)] open_failed(2)
  show ?thesis by auto
next
  case (body_failed this1 err this2)
  from fn [of "this1\<lparr>transactionDepth := transactionDepth this1 + 1\<rparr>"] body_failed(2)
  obtain e1 where "issued this2 = issued this1 @ e1" by auto
  with catch_block_extends [of drv "transactionDepth this" err this2]
    exec_from_Resolved [OF body_failed(1)] body_failed(3)
  show ?thesis by auto
next
  case (close_failed this1 result this2 err this4)
  from fn [of "this1\<lparr>transactionDepth := transactionDepth this1 + 1\<rparr>"] close_failed(2)
  obtain e1 where "issued this2 = issued this1 @ e1" by auto
  with catch_block_extends [of drv "transactionDepth this" err this4]
    exec_from_Resolved [OF close_failed(1)] exec_from_Rejected [OF close_failed(3)] close_failed(4)
  show ?thesis by auto
next
  case (committed this1 result this2 this4)
  from fn [of "this1\<lparr>transactionDepth := transactionDepth this1 + 1\<rparr>"] committed(2)
  obtain e1 where "issued this2 = issued this1 @ e1" by auto
  with exec_from_Resolved [OF committed(1)] exec_from_Resolved [OF committed(3)] committed(4)
  show ?thesis by auto
qed

text \<open>
  Claim C6, as amended.  A transaction attempt started on the session is one queued
  operation: with it, the queue has taken as many operations as there were calls.  The
  statements of the attempt are issued inside that operation, straight on the engine, so
  they stay together in the order the driver sees, whenever the other calls are
  submitted, before, during or after the attempt: the statements of the calls submitted
  before it come first, then the opening statement and the rest of the attempt, then the
  statements of the calls submitted after it.
\<close>

theorem transaction_attempt_is_one_operation:
  fixes this :: "('d, 'v) base_database"
  assumes "CreateDbResolves \<in> set (before @ after)"
    and "submissions before = map (operation drv) xs"
    and "submissions after = map (operation drv) ys"
  shows "\<exists>n rest.
      submitted (drain n (run_schedule
          (before @ Submit (operation drv (CallTransaction fn m)) # after) (new_Database this)))
        = length xs + 1 + length ys
    \<and> jobs (drain n (run_schedule
          (before @ Submit (operation drv (CallTransaction fn m)) # after) (new_Database this)))
        = []
    \<and> issued (engine (drain n (run_schedule
          (before @ Submit (operation drv (CallTransaction fn m)) # after) (new_Database this))))
        = issued (snd (transaction drv (run_prog drv fn) m (run_ops (map (operation drv) xs) this)))
            @ rest
    \<and> (\<exists>ok stmts.
          issued (snd (transaction drv (run_prog drv fn) m (run_ops (map (operation drv) xs) this)))
          = issued (run_ops (map (operation drv) xs) this)
              @ (Manager, opening_sql m (transactionDepth (run_ops (map (operation drv) xs) this)), ok,
                 transactionDepth (run_ops (map (operation drv) xs) this)) # stmts)"
proof -
  let ?acts = "before @ Submit (operation drv (CallTransaction fn m)) # after"
  let ?ops = "map (operation drv) (xs @ CallTransaction fn m # ys)"
  let ?E1 = "run_ops (map (operation drv) xs) this"
  let ?T = "snd (transaction drv (run_prog drv fn) m ?E1)"
  have ops: "submissions ?acts = ?ops"
    using assms(2,3) by (simp add: submissions_append)
  have "CreateDbResolves \<in> set ?acts" using assms(1) by auto
  from schedule_drains [OF this, of this] obtain n where
    n: "drain n (run_schedule ?acts (new_Database this)) = at_boundary ?ops this (length ?ops)"
    unfolding ops by blast
  have "run_ops ?ops this = run_ops (map (operation drv) ys) ?T"
    by (simp add: run_ops_append run_task_operation)
  with run_calls_extend [of drv ys ?T] obtain rest where
    rest: "issued (run_ops ?ops this) = issued ?T @ rest" by auto
  have first: "\<exists>ok stmts. issued ?T = issued ?E1
       @ (Manager, opening_sql m (transactionDepth ?E1), ok, transactionDepth ?E1) # stmts"
    by (rule transaction_opening_first) (rule run_prog_extends)
  have d: "submitted (at_boundary ?ops this (length ?ops)) = length xs + 1 + length ys"
    by (simp add: at_boundary_def)
  have j: "jobs (at_boundary ?ops this (length ?ops)) = []"
    by (rule at_boundary_done)
  have e: "issued (engine (at_boundary ?ops this (length ?ops))) = issued ?T @ rest"
    using rest by (simp only: at_boundary_done)
  show ?thesis
    by (rule exI [of _ n], rule exI [of _ rest]) (use d j e first in \<open>simp only: n simp_thms\<close>)
qed

theorem transaction_attempt_is_one_operation_witness:
  "CreateDbResolves \<in> set ([CreateDbResolves] @ [Submit (operation accepting (CallExec ''SELECT 1''))])
   \<and> submissions [CreateDbResolves] = map (operation accepting) ([] :: (unit, nat) call list)
   \<and> submissions [Submit (operation accepting (CallExec ''SELECT 1''))]
       = map (operation accepting) [CallExec ''SELECT 1'' :: (unit, nat) call]
   \<and> (\<exists>n. submitted (drain n (run_schedule
          ([CreateDbResolves] @ Submit (operation accepting (CallTransaction (Return Undefined) Plain))
             # [Submit (operation accepting (CallExec ''SELECT 1''))])
          (new_Database (new_base_database () :: (unit, nat) base_database))))
        = Suc (Suc 0))"
  using transaction_attempt_is_one_operation
    [of "[CreateDbResolves]" "[Submit (operation accepting (CallExec ''SELECT 1''))]" accepting "[]"
        "[CallExec ''SELECT 1'']" "Return Undefined" Plain "new_base_database ()"]
  by auto

text \<open>
  Claim C6 as stated fails.  A session runs one attempt with an empty body on a driver
  that accepts everything.  The queue has taken one operation, the attempt as a whole;
  the driver has received \<open>BEGIN\<close> and \<open>COMMIT\<close>, issued by \<open>BaseDatabase.transaction\<close> on
  its own \<open>exec\<close>, neither of them submitted to the queue.
\<close>

theorem control_statements_inside_one_operation:
  "submitted (drain 5 (createDb_settles (Resolved Db)
      (snd (Database_call accepting (CallTransaction (Return Undefined) Plain)
         (new_Database (new_base_database () :: (unit, nat) base_database))))))
     = 1
   \<and> jobs (drain 5 (createDb_settles (Resolved Db)
      (snd (Database_call accepting (CallTransaction (Return Undefined) Plain)
         (new_Database (new_base_database () :: (unit, nat) base_database))))))
     = []
   \<and> issued (engine (drain 5 (createDb_settles (Resolved Db)
      (snd (Database_call accepting (CallTransaction (Return Undefined) Plain)
         (new_Database (new_base_database () :: (unit, nat) base_database)))))))
     = [(Manager, ''BEGIN '', True, 0), (Manager, ''COMMIT'', True, 0)]"
  by (simp add: enqueue_def promise_then_def settle_def tick_def advance_def
      createDb_settles_def new_Database_def fresh_promise_def Database_call_def operation_def
      atomic_def Let_def eval_nat_numeral transaction_def accepting_exec new_base_database_def)

subsection \<open>Closing the session\<close>

text \<open>
  No method but \<open>close\<close> reads \<open>#isClosed\<close>: setting the flag changes neither how a
  method settles nor what it does to the driver and to the depth.
\<close>

lemma exec_from_ignores_isClosed:
  "exec_from who drv sql (this\<lparr>isClosed := b\<rparr>)
     = (fst (exec_from who drv sql this), (snd (exec_from who drv sql this))\<lparr>isClosed := b\<rparr>)"
  by (simp add: exec_from_def split: prod.splits option.splits)

lemma catch_block_ignores_isClosed:
  "catch_block drv depth name err (this\<lparr>isClosed := b\<rparr>)
     = (fst (catch_block drv depth name err this),
        (snd (catch_block drv depth name err this))\<lparr>isClosed := b\<rparr>)"
  by (simp add: catch_block_def exec_from_ignores_isClosed split: prod.splits outcome.splits)

lemma transaction_unfold:
  "transaction drv fn m this =
     (case exec_from Manager drv (opening_sql m (transactionDepth this)) this of
        (Rejected err, this1) \<Rightarrow>
          catch_block drv (transactionDepth this) (frame_name (transactionDepth this)) err this1
      | (Resolved _, this1) \<Rightarrow>
         (case fn (this1\<lparr>transactionDepth := transactionDepth this1 + 1\<rparr>) of
            (Rejected err, this2) \<Rightarrow>
              catch_block drv (transactionDepth this) (frame_name (transactionDepth this)) err this2
          | (Resolved result, this2) \<Rightarrow>
             (case exec_from Manager drv (closing_sql (transactionDepth this))
                     (this2\<lparr>transactionDepth := transactionDepth this2 - 1\<rparr>) of
                (Rejected err, this4) \<Rightarrow>
                  catch_block drv (transactionDepth this) (frame_name (transactionDepth this))
                    err this4
              | (Resolved _, this4) \<Rightarrow> (Resolved result, this4))))"
  unfolding transaction_def Let_def opening_sql_def closing_sql_def frame_name_def
  by (cases "transactionDepth this = 0") (simp_all split: prod.splits outcome.splits)

lemma transaction_ignores_isClosed:
  fixes this :: "('d, 'v) base_database"
  assumes fn: "\<And>t. fn (t\<lparr>isClosed := b\<rparr>) = (fst (fn t), (snd (fn t))\<lparr>isClosed := b\<rparr>)"
  shows "transaction drv fn m (this\<lparr>isClosed := b\<rparr>)
     = (fst (transaction drv fn m this), (snd (transaction drv fn m this))\<lparr>isClosed := b\<rparr>)"
proof -
  define U :: "('d, 'v) base_database \<Rightarrow> ('d, 'v) base_database"
    where "U t = t\<lparr>isClosed := b\<rparr>" for t
  let ?d = "transactionDepth this"
  have depth: "transactionDepth (U t) = transactionDepth t" for t
    by (simp add: U_def)
  have comm: "(U t)\<lparr>transactionDepth := d\<rparr> = U (t\<lparr>transactionDepth := d\<rparr>)" for t d
    by (simp add: U_def)
  have ex: "exec_from who drv sql (U t)
      = (fst (exec_from who drv sql t), U (snd (exec_from who drv sql t)))" for who sql t
    unfolding U_def by (rule exec_from_ignores_isClosed)
  have cb: "catch_block drv d n e (U t)
      = (fst (catch_block drv d n e t), U (snd (catch_block drv d n e t)))" for d n e t
    unfolding U_def by (rule catch_block_ignores_isClosed)
  have f: "fn (U t) = (fst (fn t), U (snd (fn t)))" for t
    unfolding U_def by (rule fn)
  obtain r1 t1 where e1: "exec_from Manager drv (opening_sql m ?d) this = (r1, t1)"
    by (cases "exec_from Manager drv (opening_sql m ?d) this")
  obtain r2 t2 where e2: "fn (t1\<lparr>transactionDepth := transactionDepth t1 + 1\<rparr>) = (r2, t2)"
    by (cases "fn (t1\<lparr>transactionDepth := transactionDepth t1 + 1\<rparr>)")
  obtain r3 t3 where e3: "exec_from Manager drv (closing_sql ?d)
      (t2\<lparr>transactionDepth := transactionDepth t2 - 1\<rparr>) = (r3, t3)"
    by (cases "exec_from Manager drv (closing_sql ?d)
      (t2\<lparr>transactionDepth := transactionDepth t2 - 1\<rparr>)")
  have e1': "exec_from Manager drv (opening_sql m ?d) (U this) = (r1, U t1)"
    by (simp add: ex e1)
  have e2': "fn ((U t1)\<lparr>transactionDepth := transactionDepth t1 + 1\<rparr>) = (r2, U t2)"
    by (simp add: comm f e2)
  have e3': "exec_from Manager drv (closing_sql ?d)
      ((U t2)\<lparr>transactionDepth := transactionDepth t2 - 1\<rparr>) = (r3, U t3)"
    by (simp add: comm ex e3)
  have "transaction drv fn m (U this)
      = (fst (transaction drv fn m this), U (snd (transaction drv fn m this)))"
    by (cases r1; cases r2; cases r3)
       (simp_all add: transaction_unfold depth e1 e1' e2 e2' e3 e3' cb)
  then show ?thesis by (simp add: U_def)
qed

lemma run_prog_ignores_isClosed:
  "run_prog drv p (this\<lparr>isClosed := b\<rparr>)
     = (fst (run_prog drv p this), (snd (run_prog drv p this))\<lparr>isClosed := b\<rparr>)"
proof (induction p arbitrary: this)
  case (Return v) show ?case by simp
next
  case (Throw v) show ?case by simp
next
  case (Exec sql k)
  show ?case
    by (simp add: exec_def exec_from_ignores_isClosed Exec.IH split: prod.splits)
next
  case (Nested m body k)
  have "transaction drv (run_prog drv body) m (this\<lparr>isClosed := b\<rparr>)
      = (fst (transaction drv (run_prog drv body) m this),
         (snd (transaction drv (run_prog drv body) m this))\<lparr>isClosed := b\<rparr>)"
    by (rule transaction_ignores_isClosed) (rule Nested.IH(1))
  then show ?case by (simp add: Nested.IH(2) split: prod.splits)
next
  case (Other f k)
  obtain r d where fd: "f (raw_db this) = (r, d)" by (cases "f (raw_db this)")
  have sw: "this\<lparr>isClosed := b, raw_db := d\<rparr> = this\<lparr>raw_db := d, isClosed := b\<rparr>"
    by simp
  from Other.IH [of "k r" "this\<lparr>raw_db := d\<rparr>"] fd show ?case by (simp add: sw)
qed

lemma db_method_ignores_isClosed:
  assumes "c \<noteq> CallClose"
  shows "db_method drv c (this\<lparr>isClosed := b\<rparr>)
     = (fst (db_method drv c this), (snd (db_method drv c this))\<lparr>isClosed := b\<rparr>)"
proof (cases c)
  case (CallTransaction fn m)
  have "transaction drv (run_prog drv fn) m (this\<lparr>isClosed := b\<rparr>)
      = (fst (transaction drv (run_prog drv fn) m this),
         (snd (transaction drv (run_prog drv fn) m this))\<lparr>isClosed := b\<rparr>)"
    by (rule transaction_ignores_isClosed) (rule run_prog_ignores_isClosed)
  with CallTransaction show ?thesis by simp
next
  case CallClose
  with assms show ?thesis by simp
qed (simp_all add: exec_def begin_tx_def commit_def rollback_def exec_from_ignores_isClosed
       backup_override_def serialize_override_def raw_def split: prod.splits)

text \<open>
  Claim C7, as amended.  The session has no check of its own for a closed connection and
  no error of its own for it.  In every schedule in which \<open>createDb\<close> resolves, an
  operation settles as the method of the database object does on the engine its
  predecessors left, whatever was submitted before it, \<open>close()\<close> included.  No method but
  \<open>close()\<close> depends on the closed flag: with the flag set either way, the method (a
  transaction attempt with a body that keeps to the declared type of its handle
  included) settles the same and leaves the same instance, the flag apart.  So, closed
  or not, \<open>exec(sql)\<close> is rejected exactly when the driver's \<open>exec\<close> throws and then
  with what it threw,
  \<open>backup\<close> and \<open>serialize\<close> settle as the driver's facilities do, and \<open>raw()\<close> resolves
  with the driver handle; \<open>close()\<close> on a closed instance resolves and changes nothing.
\<close>

theorem closed_session_defers_to_engine:
  fixes this closed :: "('d, 'v) base_database"
  shows "(CreateDbResolves \<in> set (acts @ later) \<and> submissions later = [] \<longrightarrow>
          (\<exists>n. state (cells (drain n (run_schedule (acts @ Submit (operation drv c) # later)
                   (new_Database this)))
             (Result (Suc (length (submissions acts)))))
           = Settled (fst (db_method drv c (run_ops (submissions acts) this)))))
   \<and> (c \<noteq> CallClose \<longrightarrow>
        db_method drv c (this\<lparr>isClosed := b\<rparr>)
          = (fst (db_method drv c this), (snd (db_method drv c this))\<lparr>isClosed := b\<rparr>))
   \<and> (isClosed closed \<longrightarrow> db_method drv CallClose closed = (Resolved Undefined, closed))
   \<and> fst (db_method drv (CallExec sql) this)
        = (case fst (db_exec drv sql (raw_db this)) of
             None \<Rightarrow> Resolved Undefined | Some err \<Rightarrow> Rejected err)
   \<and> fst (db_method drv CallBackup this) = fst (db_backup drv (raw_db this))
   \<and> fst (db_method drv CallSerialize this) = fst (db_serialize drv (raw_db this))
   \<and> fst (db_method drv CallRaw this) = Resolved RawHandle"
proof -
  let ?acts = "acts @ Submit (operation drv c) # later"
  have a: "\<exists>n. state (cells (drain n (run_schedule ?acts (new_Database this)))
             (Result (Suc (length (submissions acts)))))
           = Settled (fst (db_method drv c (run_ops (submissions acts) this)))"
    if cr: "CreateDbResolves \<in> set (acts @ later)" and l: "submissions later = []"
  proof -
    let ?ops = "submissions acts @ [operation drv c]"
    have ops: "submissions ?acts = ?ops" using l by (simp add: submissions_append)
    have "CreateDbResolves \<in> set ?acts" using cr by auto
    from schedule_drains [OF this, of this] obtain n where
      n: "drain n (run_schedule ?acts (new_Database this)) = at_boundary ?ops this (length ?ops)"
      unfolding ops by blast
    have o: "outcome_of ?ops this (length (submissions acts))
        = fst (db_method drv c (run_ops (submissions acts) this))"
      unfolding outcome_of_def by (simp add: nth_append run_task_operation)
    have "state (cells (at_boundary ?ops this (length ?ops))
             (Result (Suc (length (submissions acts)))))
        = Settled (fst (db_method drv c (run_ops (submissions acts) this)))"
      using batch_result(1) [of "length (submissions acts)" ?ops this] o by simp
    then have "state (cells (drain n (run_schedule ?acts (new_Database this)))
             (Result (Suc (length (submissions acts)))))
        = Settled (fst (db_method drv c (run_ops (submissions acts) this)))"
      unfolding n .
    then show ?thesis by (rule exI)
  qed
  have b: "db_method drv c (this\<lparr>isClosed := b\<rparr>)
          = (fst (db_method drv c this), (snd (db_method drv c this))\<lparr>isClosed := b\<rparr>)"
    if "c \<noteq> CallClose"
    using that by (rule db_method_ignores_isClosed)
  have c: "db_method drv CallClose closed = (Resolved Undefined, closed)" if "isClosed closed"
    using that by (simp add: close_def)
  have d: "fst (db_method drv (CallExec sql) this)
        = (case fst (db_exec drv sql (raw_db this)) of
             None \<Rightarrow> Resolved Undefined | Some err \<Rightarrow> Rejected err)"
    by (simp add: exec_def exec_from_def split: prod.splits option.splits)
  have e: "fst (db_method drv CallBackup this) = fst (db_backup drv (raw_db this))"
    "fst (db_method drv CallSerialize this) = fst (db_serialize drv (raw_db this))"
    "fst (db_method drv CallRaw this) = Resolved RawHandle"
    by (simp_all add: backup_override_def serialize_override_def raw_def split: prod.splits)
  from a b c d e show ?thesis by blast
qed

theorem closed_session_defers_to_engine_witness:
  "CreateDbResolves
     \<in> set ([Submit (operation (closable :: (bool, nat) driver) CallClose), CreateDbResolves] @ [])
   \<and> submissions ([] :: ((bool, nat) base_database, nat) action list) = []
   \<and> (\<exists>n. state (cells (drain n (run_schedule
            ([Submit (operation (closable :: (bool, nat) driver) CallClose), CreateDbResolves]
               @ Submit (operation closable CallSerialize) # [])
            (new_Database (new_base_database True))))
          (Result (Suc (Suc 0))))
        = Settled (Rejected (Error ''database is not open'')))
   \<and> (CallSerialize :: (bool, nat) call) \<noteq> CallClose
   \<and> db_method (closable :: (bool, nat) driver) CallSerialize
         ((new_base_database True)\<lparr>isClosed := True\<rparr>)
       = (Resolved Undefined, (new_base_database True)\<lparr>isClosed := True\<rparr>)
   \<and> isClosed ((new_base_database False)\<lparr>isClosed := True\<rparr> :: (bool, nat) base_database)
   \<and> db_method (closable :: (bool, nat) driver) CallClose
         ((new_base_database False)\<lparr>isClosed := True\<rparr>)
       = (Resolved Undefined, (new_base_database False)\<lparr>isClosed := True\<rparr>)"
  using closed_session_defers_to_engine
    [of "[Submit (operation closable CallClose), CreateDbResolves]" "[]"
        "closable :: (bool, nat) driver" CallSerialize
        "new_base_database True" True "(new_base_database False)\<lparr>isClosed := True\<rparr>"
        "''SELECT 1''"]
  by (auto simp: closable_def new_base_database_def close_def serialize_override_def
        run_task_operation)

text \<open>
  Claim C7 as stated fails.  \<open>close()\<close> is awaited, the instance is closed, and \<open>raw()\<close>
  submitted afterwards resolves with the driver handle.
\<close>

theorem raw_resolves_after_close:
  "isClosed (engine (drain 5 (createDb_settles (Resolved Db)
      (snd (Database_call accepting CallClose (new_Database (new_base_database () :: (unit, nat) base_database)))))))
   \<and> state (cells (drain 5 (snd (Database_call accepting CallRaw
        (drain 5 (createDb_settles (Resolved Db)
          (snd (Database_call accepting CallClose (new_Database (new_base_database () :: (unit, nat) base_database)))))))))
        (Result 2))
     = Settled (Resolved RawHandle)"
  by (simp add: enqueue_def promise_then_def settle_def tick_def advance_def
      createDb_settles_def new_Database_def fresh_promise_def Database_call_def operation_def
      atomic_def Let_def eval_nat_numeral close_def raw_def accepting_def new_base_database_def)

lemma close_twice:
  "close drv this = (Resolved v, this') \<Longrightarrow> isClosed this' \<and> close drv this' = (Resolved Undefined, this')"
  by (auto simp: close_def split: if_splits prod.splits option.splits)

text \<open>
  Claim C10.  \<open>close()\<close> on an instance that is already closed resolves and changes
  nothing; after a \<open>close()\<close> that resolved the instance is closed, so a second one
  resolves as well; and on a session, of two \<open>close()\<close> calls with nothing else submitted
  between them, awaited or not, both settle once \<open>createDb\<close> has resolved and the pending
  jobs have run, each with what \<open>close\<close> of \<open>BaseDatabase\<close> gives, and the second is
  fulfilled whenever the first was.
\<close>

theorem close_is_idempotent:
  fixes this :: "('d, 'v) base_database"
  shows "(isClosed this \<longrightarrow> close drv this = (Resolved Undefined, this))
   \<and> (\<forall>v this'. close drv this = (Resolved v, this') \<longrightarrow>
         isClosed this' \<and> close drv this' = (Resolved Undefined, this'))
   \<and> (CreateDbResolves \<in> set (acts @ between @ later)
        \<and> submissions between = [] \<and> submissions later = [] \<longrightarrow>
       (\<exists>n.
         state (cells (drain n (run_schedule
             (acts @ Submit (operation drv CallClose) # between
                @ Submit (operation drv CallClose) # later) (new_Database this)))
           (Result (Suc (length (submissions acts)))))
           = Settled (fst (close drv (run_ops (submissions acts) this)))
         \<and> state (cells (drain n (run_schedule
             (acts @ Submit (operation drv CallClose) # between
                @ Submit (operation drv CallClose) # later) (new_Database this)))
           (Result (Suc (Suc (length (submissions acts))))))
           = Settled (fst (close drv (snd (close drv (run_ops (submissions acts) this)))))
         \<and> (\<forall>v. fst (close drv (run_ops (submissions acts) this)) = Resolved v \<longrightarrow>
               fst (close drv (snd (close drv (run_ops (submissions acts) this))))
                 = Resolved Undefined)))"
proof -
  let ?acts = "acts @ Submit (operation drv CallClose) # between
                @ Submit (operation drv CallClose) # later"
  let ?cs = "submissions acts"
  let ?ops = "?cs @ [operation drv CallClose, operation drv CallClose]"
  let ?E = "run_ops ?cs this"
  have twice: "\<forall>v. fst (close drv ?E) = Resolved v \<longrightarrow>
      fst (close drv (snd (close drv ?E))) = Resolved Undefined"
  proof (intro allI impI)
    fix v
    assume "fst (close drv ?E) = Resolved v"
    then have "close drv ?E = (Resolved v, snd (close drv ?E))" by (metis prod.collapse)
    from close_twice [OF this]
    show "fst (close drv (snd (close drv ?E))) = Resolved Undefined" by simp
  qed
  have session: "\<exists>n.
         state (cells (drain n (run_schedule ?acts (new_Database this)))
           (Result (Suc (length ?cs)))) = Settled (fst (close drv ?E))
         \<and> state (cells (drain n (run_schedule ?acts (new_Database this)))
           (Result (Suc (Suc (length ?cs))))) = Settled (fst (close drv (snd (close drv ?E))))
         \<and> (\<forall>v. fst (close drv ?E) = Resolved v \<longrightarrow>
               fst (close drv (snd (close drv ?E))) = Resolved Undefined)"
    if cr: "CreateDbResolves \<in> set (acts @ between @ later)"
      and b: "submissions between = []" and l: "submissions later = []"
  proof -
    have ops: "submissions ?acts = ?ops" using b l by (simp add: submissions_append)
    have "CreateDbResolves \<in> set ?acts" using cr by auto
    from schedule_drains [OF this, of this] obtain n where
      n: "drain n (run_schedule ?acts (new_Database this)) = at_boundary ?ops this (length ?ops)"
      unfolding ops by blast
    have t2: "take (Suc (length ?cs)) ?ops = ?cs @ [operation drv CallClose]"
      by (simp add: take_Suc_conv_app_nth nth_append)
    have o1: "outcome_of ?ops this (length ?cs) = fst (close drv ?E)"
      unfolding outcome_of_def by (simp add: nth_append run_task_operation)
    have o2: "outcome_of ?ops this (Suc (length ?cs)) = fst (close drv (snd (close drv ?E)))"
      unfolding outcome_of_def t2 by (simp add: nth_append run_ops_append run_task_operation)
    have r1: "state (cells (at_boundary ?ops this (length ?ops)) (Result (Suc (length ?cs))))
        = Settled (fst (close drv ?E))"
      using batch_result(1) [of "length ?cs" ?ops this] o1 by simp
    have r2: "state (cells (at_boundary ?ops this (length ?ops)) (Result (Suc (Suc (length ?cs)))))
        = Settled (fst (close drv (snd (close drv ?E))))"
      using batch_result(1) [of "Suc (length ?cs)" ?ops this] o2 by simp
    have a1: "state (cells (drain n (run_schedule ?acts (new_Database this)))
           (Result (Suc (length ?cs)))) = Settled (fst (close drv ?E))"
      unfolding n by (rule r1)
    have a2: "state (cells (drain n (run_schedule ?acts (new_Database this)))
           (Result (Suc (Suc (length ?cs))))) = Settled (fst (close drv (snd (close drv ?E))))"
      unfolding n by (rule r2)
    from a1 a2 twice show ?thesis by blast
  qed
  moreover have "isClosed this \<longrightarrow> close drv this = (Resolved Undefined, this)"
    by (simp add: close_def)
  moreover have "\<forall>v this'. close drv this = (Resolved v, this') \<longrightarrow>
         isClosed this' \<and> close drv this' = (Resolved Undefined, this')"
    using close_twice by blast
  ultimately show ?thesis by blast
qed

theorem close_is_idempotent_witness:
  "isClosed ((new_base_database ())\<lparr>isClosed := True\<rparr> :: (unit, nat) base_database)
   \<and> close (accepting :: (unit, nat) driver) ((new_base_database ())\<lparr>isClosed := True\<rparr> :: (unit, nat) base_database)
       = (Resolved Undefined, (new_base_database ())\<lparr>isClosed := True\<rparr>)
   \<and> close (accepting :: (unit, nat) driver) (new_base_database () :: (unit, nat) base_database)
       = (Resolved Undefined, (new_base_database ())\<lparr>isClosed := True\<rparr>)
   \<and> close (accepting :: (unit, nat) driver) (snd (close (accepting :: (unit, nat) driver) (new_base_database () :: (unit, nat) base_database)))
       = (Resolved Undefined, (new_base_database ())\<lparr>isClosed := True\<rparr>)
   \<and> CreateDbResolves
        \<in> set (([CreateDbResolves] @ [RunJob] @ [])
                 :: ((unit, nat) base_database, nat) action list)
   \<and> submissions ([RunJob] :: ((unit, nat) base_database, nat) action list) = []
   \<and> (\<exists>n.
         state (cells (drain n (run_schedule
             ([CreateDbResolves] @ Submit (operation (accepting :: (unit, nat) driver) CallClose) # [RunJob]
                @ Submit (operation (accepting :: (unit, nat) driver) CallClose) # [])
             (new_Database (new_base_database () :: (unit, nat) base_database))))
           (Result (Suc 0))) = Settled (Resolved Undefined)
       \<and> state (cells (drain n (run_schedule
             ([CreateDbResolves] @ Submit (operation (accepting :: (unit, nat) driver) CallClose) # [RunJob]
                @ Submit (operation (accepting :: (unit, nat) driver) CallClose) # [])
             (new_Database (new_base_database () :: (unit, nat) base_database))))
           (Result (Suc (Suc 0)))) = Settled (Resolved Undefined))"
  using close_is_idempotent
      [of "(new_base_database ())\<lparr>isClosed := True\<rparr> :: (unit, nat) base_database" accepting
          "[]" "[]" "[]"]
    close_is_idempotent
      [of "new_base_database () :: (unit, nat) base_database" accepting
          "[CreateDbResolves]" "[RunJob]" "[]"]
  by (auto simp: close_def accepting_def new_base_database_def)

end
